theory Spec2Isabelle
  imports Main "HOL-Library.Word"
begin

section \<open>Data model of \<^verbatim>\<open>c_src/yajler_nif.c\<close>\<close>

type_synonym byte = "8 word"

text \<open>
  Erlang terms as far as the NIF builds them: atoms (\<^verbatim>\<open>enif_make_atom\<close>), integers
  (\<^verbatim>\<open>enif_make_long\<close>, and the characters of \<^verbatim>\<open>enif_make_string\<close>), floats (kept as the
  64 bits of the C double, which the NIF only passes on), binaries, 2-tuples and lists.
\<close>

datatype eterm =
    Atom string
  | Long int
  | Double "64 word"
  | Binary "byte list"
  | Tuple2 eterm eterm
  | EList "eterm list"

text \<open>
  Undefined behaviour of the C program is a value of the model: every dereference, array
  access, arithmetic overflow and release that C leaves undefined ends the run with a fault.
\<close>

datatype fault = NullDeref | OutOfBounds | UninitRead | IntOverflow | BadFree

definition INT_MAX :: int where
  "INT_MAX = 2147483647"

definition INT_MIN :: int where
  "INT_MIN = - 2147483648"

definition ERR_BUF_SIZE :: nat where
  "ERR_BUF_SIZE = 256"

text \<open>
  An elements array: a block of \<^verbatim>\<open>ERL_NIF_TERM\<close> cells, a cell being \<open>None\<close> until it is
  first written. The pointer \<^verbatim>\<open>array\<close> is \<open>None\<close> when it is \<^verbatim>\<open>NULL\<close>.
\<close>

type_synonym slots = "eterm option list"

text \<open>
  \<^verbatim>\<open>container_t\<close>. The \<^verbatim>\<open>next\<close> pointers make a singly linked list that nothing else
  points into, so the list of containers is a HOL list, innermost first, and \<^verbatim>\<open>NULL\<close> is
  \<open>[]\<close>. \<^verbatim>\<open>key\<close> is an \<^verbatim>\<open>int\<close> that only ever holds 0 or 1. \<open>dyn\<close> is not a field of the C
  struct: it records that the struct and its array came from \<^verbatim>\<open>enif_alloc\<close>; it is false
  only for the automatic container of \<^verbatim>\<open>decode_1\<close>, whose array is the address of the
  local \<^verbatim>\<open>term\<close>.
\<close>

record container_t =
  count :: int
  arraysz :: int
  array :: "slots option"
  key :: bool
  dyn :: bool

text \<open>
  The allocator behind \<^verbatim>\<open>enif_alloc\<close>, \<^verbatim>\<open>enif_realloc\<close> and \<^verbatim>\<open>enif_alloc_binary\<close>:
  \<open>outcomes\<close> lists the outcomes of the coming requests (a request after the end of the
  list succeeds), \<open>live\<close> counts the blocks handed out to this program by
  \<^verbatim>\<open>enif_alloc\<close>/\<^verbatim>\<open>enif_realloc\<close> and not yet given back with \<^verbatim>\<open>enif_free\<close>. The
  requests of the parser library for its own memory are not part of it.
\<close>

record heap =
  outcomes :: "bool list"
  live :: int

text \<open>\<^verbatim>\<open>state_t\<close> (the environment handle carries no data of its own), with the allocator.\<close>

record state_t = heap +
  c :: "container_t list"
  errmsg :: "byte list"

section \<open>Allocator and array primitives\<close>

definition next_alloc :: "state_t \<Rightarrow> bool \<times> state_t" where
  "next_alloc st =
     (case outcomes st of
        [] \<Rightarrow> (True, st)
      | b # bs \<Rightarrow> (b, st\<lparr>outcomes := bs\<rparr>))"

text \<open>\<^verbatim>\<open>enif_alloc(sizeof(container_t))\<close>: whether a struct was obtained.\<close>

definition enif_alloc_struct :: "state_t \<Rightarrow> bool \<times> state_t" where
  "enif_alloc_struct st =
     (let (ok, st1) = next_alloc st
      in if ok then (True, st1\<lparr>live := live st1 + 1\<rparr>) else (False, st1))"

text \<open>
  \<^verbatim>\<open>enif_alloc(n*sizeof(ERL_NIF_TERM))\<close> and \<^verbatim>\<open>enif_realloc(p, n*sizeof(ERL_NIF_TERM))\<close>
  for an \<^verbatim>\<open>int\<close> n: a negative n converts to a size beyond the address space, so the
  request fails. A failed \<^verbatim>\<open>enif_realloc\<close> leaves the old block allocated.
\<close>

definition enif_alloc :: "state_t \<Rightarrow> int \<Rightarrow> slots option \<times> state_t" where
  "enif_alloc st n =
     (let (ok, st1) = next_alloc st
      in if ok \<and> 0 \<le> n then (Some (replicate (nat n) None), st1\<lparr>live := live st1 + 1\<rparr>)
         else (None, st1))"

definition enif_realloc :: "state_t \<Rightarrow> slots option \<Rightarrow> int \<Rightarrow> slots option \<times> state_t" where
  "enif_realloc st p n =
     (let (ok, st1) = next_alloc st
      in if ok \<and> 0 \<le> n then
           (case p of
              None \<Rightarrow> (Some (replicate (nat n) None), st1\<lparr>live := live st1 + 1\<rparr>)
            | Some a \<Rightarrow> (Some (take (nat n) a @ replicate (nat n - length a) None), st1))
         else (None, st1))"

definition enif_free :: "state_t \<Rightarrow> state_t" where
  "enif_free st = st\<lparr>live := live st - 1\<rparr>"

text \<open>\<^verbatim>\<open>if (p) enif_free(p);\<close>\<close>

definition free_array :: "slots option \<Rightarrow> state_t \<Rightarrow> state_t" where
  "free_array p st = (case p of None \<Rightarrow> st | Some a \<Rightarrow> enif_free st)"

text \<open>Reading and writing \<^verbatim>\<open>p[i]\<close>.\<close>

definition slot_read :: "slots option \<Rightarrow> int \<Rightarrow> fault + eterm" where
  "slot_read p i =
     (case p of
        None \<Rightarrow> Inl NullDeref
      | Some a \<Rightarrow>
          if i < 0 \<or> int (length a) \<le> i then Inl OutOfBounds
          else (case a ! nat i of None \<Rightarrow> Inl UninitRead | Some t \<Rightarrow> Inr t))"

definition slot_write :: "slots option \<Rightarrow> int \<Rightarrow> eterm \<Rightarrow> fault + slots option" where
  "slot_write p i t =
     (case p of
        None \<Rightarrow> Inl NullDeref
      | Some a \<Rightarrow>
          if i < 0 \<or> int (length a) \<le> i then Inl OutOfBounds
          else Inr (Some (a[nat i := Some t])))"

text \<open>
  \<^verbatim>\<open>strncpy(dst, src, n)\<close>, as the destination's n bytes: the bytes of \<open>src\<close> up to its
  first zero byte, then zero bytes up to n. \<open>src\<close> lists the bytes that may be read;
  reading past them is a fault (\<open>None\<close>).
\<close>

fun strncpy :: "byte list \<Rightarrow> nat \<Rightarrow> byte list option" where
  "strncpy src 0 = Some []"
| "strncpy [] (Suc n) = None"
| "strncpy (b # src) (Suc n) =
     (if b = 0 then Some (replicate (Suc n) 0)
      else (case strncpy src n of None \<Rightarrow> None | Some d \<Rightarrow> Some (b # d)))"

text \<open>The bytes of a C string literal and the content of a zero-terminated buffer.\<close>

definition cstr :: "string \<Rightarrow> byte list" where
  "cstr s = map of_char s"

definition c_string :: "byte list \<Rightarrow> byte list" where
  "c_string buf = takeWhile (\<lambda>b. b \<noteq> 0) buf"

text \<open>\<^verbatim>\<open>enif_make_string(env, s, ERL_NIF_LATIN1)\<close>: the list of the character codes.\<close>

definition enif_make_string :: "byte list \<Rightarrow> eterm" where
  "enif_make_string s = EList (map (\<lambda>b. Long (uint b)) s)"

text \<open>
  \<^verbatim>\<open>enif_make_list_from_array(env, arr, cnt)\<close> reads \<open>arr[0..cnt-1]\<close>; the count
  parameter is unsigned, so a negative \<^verbatim>\<open>int\<close> reads far beyond any block.
\<close>

definition enif_make_list_from_array :: "slots option \<Rightarrow> int \<Rightarrow> fault + eterm" where
  "enif_make_list_from_array p cnt =
     (if cnt < 0 then Inl OutOfBounds
      else if cnt = 0 then Inr (EList [])
      else (case p of
              None \<Rightarrow> Inl NullDeref
            | Some a \<Rightarrow>
                if int (length a) < cnt then Inl OutOfBounds
                else if None \<in> set (take (nat cnt) a) then Inl UninitRead
                else Inr (EList (map the (take (nat cnt) a)))))"

section \<open>The tree builder\<close>

text \<open>
  \<^verbatim>\<open>add_element\<close> (lines 193-211), in its two steps: the \<^verbatim>\<open>if (c->count >= c->arraysz)\<close>
  block (lines 197-200), which doubles the capacity and stores the result of
  \<^verbatim>\<open>enif_realloc\<close> unchecked, and the \<^verbatim>\<open>if (c->key)\<close> statement (lines 201-209), which
  writes the cell.
\<close>

definition grow :: "state_t \<Rightarrow> container_t \<Rightarrow> fault + (container_t \<times> state_t)" where
  "grow st f =
     (if arraysz f \<le> count f then
        (if INT_MAX < arraysz f * 2 \<or> arraysz f * 2 < INT_MIN then Inl IntOverflow
         else if \<not> dyn f then Inl BadFree
         else (let (p, st1) = enif_realloc st (array f) (arraysz f * 2)
               in Inr (f\<lparr>arraysz := arraysz f * 2, array := p\<rparr>, st1)))
      else Inr (f, st))"

definition store :: "state_t \<Rightarrow> container_t \<Rightarrow> container_t list \<Rightarrow> eterm \<Rightarrow> fault + state_t" where
  "store st f fs t =
     (if key f then
        (case slot_read (array f) (count f - 1) of
           Inl e \<Rightarrow> Inl e
         | Inr k \<Rightarrow>
             (case slot_write (array f) (count f - 1) (Tuple2 k t) of
                Inl e \<Rightarrow> Inl e
              | Inr p \<Rightarrow> Inr (st\<lparr>c := f\<lparr>array := p, key := False\<rparr> # fs\<rparr>)))
      else
        (case slot_write (array f) (count f) t of
           Inl e \<Rightarrow> Inl e
         | Inr p \<Rightarrow>
             if count f = INT_MAX then Inl IntOverflow
             else Inr (st\<lparr>c := f\<lparr>array := p, count := count f + 1\<rparr> # fs\<rparr>)))"

definition add_element :: "state_t \<Rightarrow> eterm \<Rightarrow> fault + state_t" where
  "add_element st t =
     (case c st of
        [] \<Rightarrow> Inr st
      | f # fs \<Rightarrow>
          (case grow st f of
             Inl e \<Rightarrow> Inl e
           | Inr (f1, st1) \<Rightarrow> store st1 f1 fs t))"

text \<open>A callback returns the faulted run, or its \<^verbatim>\<open>int\<close> result and the new state.\<close>

type_synonym callback_result = "fault + (int \<times> state_t)"

definition returning :: "int \<Rightarrow> fault + state_t \<Rightarrow> callback_result" where
  "returning r m = (case m of Inl e \<Rightarrow> Inl e | Inr st \<Rightarrow> Inr (r, st))"

definition handle_null :: "state_t \<Rightarrow> callback_result" where
  "handle_null st = returning 1 (add_element st (Atom ''undefined''))"

definition handle_boolean :: "state_t \<Rightarrow> int \<Rightarrow> callback_result" where
  "handle_boolean st boolVal =
     (if boolVal \<noteq> 0 then returning 1 (add_element st (Atom ''true''))
      else returning 1 (add_element st (Atom ''false'')))"

text \<open>\<^verbatim>\<open>(long)integerVal\<close> with a 64-bit \<^verbatim>\<open>long\<close> (LP64).\<close>

definition handle_integer :: "state_t \<Rightarrow> 64 word \<Rightarrow> callback_result" where
  "handle_integer st integerVal =
     returning 1 (add_element st (Long (sint (scast integerVal :: 64 word))))"

definition handle_double :: "state_t \<Rightarrow> 64 word \<Rightarrow> callback_result" where
  "handle_double st doubleVal = returning 1 (add_element st (Double doubleVal))"

text \<open>
  \<^verbatim>\<open>handle_string\<close> (lines 245-256). \<open>stringVal\<close> lists the bytes at the pointer. The
  binary belongs to the term once \<^verbatim>\<open>enif_make_binary\<close> has run, so it is not counted in
  \<open>live\<close>.
\<close>

definition handle_string :: "state_t \<Rightarrow> byte list \<Rightarrow> nat \<Rightarrow> callback_result" where
  "handle_string st stringVal stringLen =
     (let (ok, st1) = next_alloc st
      in if \<not> ok then Inr (0, st1)
         else (case strncpy stringVal stringLen of
                 None \<Rightarrow> Inl OutOfBounds
               | Some d \<Rightarrow> returning 1 (add_element st1 (Binary d))))"

text \<open>
  \<^verbatim>\<open>handle_map_key\<close> (lines 258-267) does not look at the result of
  \<^verbatim>\<open>enif_alloc_binary\<close>: after a failure \<^verbatim>\<open>bin\<close> is indeterminate and is used all the same.
\<close>

definition handle_map_key :: "state_t \<Rightarrow> byte list \<Rightarrow> nat \<Rightarrow> callback_result" where
  "handle_map_key st stringVal stringLen =
     (let (ok, st1) = next_alloc st
      in if \<not> ok then Inl UninitRead
         else (case strncpy stringVal stringLen of
                 None \<Rightarrow> Inl OutOfBounds
               | Some d \<Rightarrow>
                   (case add_element st1 (Binary d) of
                      Inl e \<Rightarrow> Inl e
                    | Inr st2 \<Rightarrow>
                        (case c st2 of
                           [] \<Rightarrow> Inl NullDeref
                         | f # fs \<Rightarrow> Inr (1, st2\<lparr>c := f\<lparr>key := True\<rparr> # fs\<rparr>)))))"

text \<open>
  \<^verbatim>\<open>handle_start\<close> (lines 269-281): the struct pointer is dereferenced unchecked, the
  array pointer is stored unchecked.
\<close>

definition handle_start :: "state_t \<Rightarrow> callback_result" where
  "handle_start st =
     (let (ok, st1) = enif_alloc_struct st
      in if \<not> ok then Inl NullDeref
         else (let (p, st2) = enif_alloc st1 16
               in Inr (1, st2\<lparr>c := \<lparr>count = 0, arraysz = 16, array = p, key = False,
                                      dyn = True\<rparr> # c st\<rparr>)))"

definition handle_start_map :: "state_t \<Rightarrow> callback_result" where
  "handle_start_map st = handle_start st"

definition handle_start_array :: "state_t \<Rightarrow> callback_result" where
  "handle_start_array st = handle_start st"

text \<open>\<^verbatim>\<open>handle_end\<close> (lines 293-309).\<close>

definition handle_end :: "state_t \<Rightarrow> callback_result" where
  "handle_end st =
     (case c st of
        [] \<Rightarrow> Inl NullDeref
      | f # fs \<Rightarrow>
          (case enif_make_list_from_array (array f) (count f) of
             Inl e \<Rightarrow> Inl e
           | Inr t \<Rightarrow>
               (case add_element (st\<lparr>c := fs\<rparr>) t of
                  Inl e \<Rightarrow> Inl e
                | Inr st1 \<Rightarrow>
                    if \<not> dyn f then Inl BadFree
                    else Inr (1, enif_free (free_array (array f) st1)))))"

definition handle_end_map :: "state_t \<Rightarrow> callback_result" where
  "handle_end_map st = handle_end st"

definition handle_end_array :: "state_t \<Rightarrow> callback_result" where
  "handle_end_array st = handle_end st"

text \<open>
  \<^verbatim>\<open>cleanup_containers\<close> (lines 81-90): the loop stops at the container whose \<^verbatim>\<open>next\<close> is
  \<^verbatim>\<open>NULL\<close>.
\<close>

fun cleanup_containers :: "container_t list \<Rightarrow> state_t \<Rightarrow> fault + state_t" where
  "cleanup_containers [] st = Inr st"
| "cleanup_containers [f] st = Inr st"
| "cleanup_containers (f # g # fs) st =
     (if \<not> dyn f then Inl BadFree
      else cleanup_containers (g # fs) (enif_free (free_array (array f) st)))"

section \<open>The event source and the entry point\<close>

text \<open>
  The parser library behind \<^verbatim>\<open>yajl_parse\<close> is not part of this program. What the program
  sees of it is the sequence of callbacks it makes, one constructor per member of the
  \<^verbatim>\<open>callbacks\<close> table (lines 52-64) that is not \<^verbatim>\<open>NULL\<close>, with the arguments it passes.
\<close>

datatype event =
    EvNull
  | EvBoolean int
  | EvInteger "64 word"
  | EvDouble "64 word"
  | EvString "byte list"
  | EvStartMap
  | EvMapKey "byte list"
  | EvEndMap
  | EvStartArray
  | EvEndArray

fun callbacks :: "event \<Rightarrow> state_t \<Rightarrow> callback_result" where
  "callbacks EvNull st = handle_null st"
| "callbacks (EvBoolean b) st = handle_boolean st b"
| "callbacks (EvInteger i) st = handle_integer st i"
| "callbacks (EvDouble d) st = handle_double st d"
| "callbacks (EvString s) st = handle_string st s (length s)"
| "callbacks EvStartMap st = handle_start_map st"
| "callbacks (EvMapKey s) st = handle_map_key st s (length s)"
| "callbacks EvEndMap st = handle_end_map st"
| "callbacks EvStartArray st = handle_start_array st"
| "callbacks EvEndArray st = handle_end_array st"

datatype yajl_status = yajl_status_ok | yajl_status_client_canceled | yajl_status_error

text \<open>
  What the library does on one input buffer: whether \<^verbatim>\<open>yajl_alloc\<close> returns a handle, the
  callbacks that \<^verbatim>\<open>yajl_parse\<close> and then \<^verbatim>\<open>yajl_complete_parse\<close> make as long as every
  callback returns non-zero, the status each returns in that case, and the text that
  \<^verbatim>\<open>yajl_get_error\<close> returns for a status (\<open>None\<close> for \<^verbatim>\<open>NULL\<close>), without its terminating
  zero.
\<close>

record yajl_t =
  handle_ok :: bool
  parse_events :: "event list"
  parse_status :: yajl_status
  complete_events :: "event list"
  complete_status :: yajl_status
  error_text :: "yajl_status \<Rightarrow> byte list option"

text \<open>The library stops at the first callback that returns 0.\<close>

fun run_callbacks :: "event list \<Rightarrow> state_t \<Rightarrow> callback_result" where
  "run_callbacks [] st = Inr (1, st)"
| "run_callbacks (e # es) st =
     (case callbacks e st of
        Inl x \<Rightarrow> Inl x
      | Inr (r, st1) \<Rightarrow> if r = 0 then Inr (0, st1) else run_callbacks es st1)"

definition yajl_call :: "event list \<Rightarrow> yajl_status \<Rightarrow> state_t \<Rightarrow> fault + (yajl_status \<times> state_t)" where
  "yajl_call es ys st =
     (case run_callbacks es st of
        Inl x \<Rightarrow> Inl x
      | Inr (r, st1) \<Rightarrow> Inr (if r = 0 then yajl_status_client_canceled else ys, st1))"

text \<open>Lines 128-132 of \<^verbatim>\<open>parse_json\<close>: \<^verbatim>\<open>yajl_parse\<close>, then \<^verbatim>\<open>yajl_complete_parse\<close>.\<close>

definition yajl_run :: "yajl_t \<Rightarrow> state_t \<Rightarrow> fault + (yajl_status \<times> state_t)" where
  "yajl_run y st =
     (case yajl_call (parse_events y) (parse_status y) st of
        Inl x \<Rightarrow> Inl x
      | Inr (ys, st1) \<Rightarrow>
          if ys = yajl_status_ok then yajl_call (complete_events y) (complete_status y) st1
          else Inr (ys, st1))"

text \<open>
  \<^verbatim>\<open>parse_json\<close> (lines 116-149). A \<^verbatim>\<open>NULL\<close> handle is passed on to \<^verbatim>\<open>yajl_config\<close>, which
  dereferences it. After \<^verbatim>\<open>cleanup_containers\<close> the pointer \<^verbatim>\<open>st->c\<close> still holds its old
  value and is not read again.
\<close>

definition parse_json ::
  "(byte list \<Rightarrow> yajl_t) \<Rightarrow> state_t \<Rightarrow> byte list \<Rightarrow> fault + (byte list option \<times> state_t)" where
  "parse_json Y st buf =
     (if \<not> handle_ok (Y buf) then Inl NullDeref
      else
        (case yajl_run (Y buf) st of
           Inl x \<Rightarrow> Inl x
         | Inr (ys, st1) \<Rightarrow>
             if ys \<noteq> yajl_status_ok then
               (case (case error_text (Y buf) ys of
                        Some msg \<Rightarrow>
                          (case strncpy (msg @ [0]) (ERR_BUF_SIZE - 1) of
                             None \<Rightarrow> Inl OutOfBounds
                           | Some d \<Rightarrow> Inr (c_string (d @ [0]), st1\<lparr>errmsg := d @ [0]\<rparr>))
                      | None \<Rightarrow> Inr (cstr ''Unknown YAJL error'', st1)) of
                  Inl x \<Rightarrow> Inl x
                | Inr (err, st2) \<Rightarrow>
                    (case cleanup_containers (c st2) st2 of
                       Inl x \<Rightarrow> Inl x
                     | Inr st3 \<Rightarrow> Inr (Some err, st3)))
             else Inr (None, st1)))"

datatype nif_ret = Badarg | Ret eterm

definition enif_is_binary :: "eterm \<Rightarrow> bool" where
  "enif_is_binary t = (case t of Binary b \<Rightarrow> True | _ \<Rightarrow> False)"

definition enif_inspect_binary :: "eterm \<Rightarrow> byte list option" where
  "enif_inspect_binary t = (case t of Binary b \<Rightarrow> Some b | _ \<Rightarrow> None)"

text \<open>The dummy top level container of \<^verbatim>\<open>decode_1\<close>: \<^verbatim>\<open>{ 0, 1, &term, 0, NULL }\<close>.\<close>

definition root_container :: container_t where
  "root_container = \<lparr>count = 0, arraysz = 1, array = Some [None], key = False, dyn = False\<rparr>"

definition init_state :: "heap \<Rightarrow> state_t" where
  "init_state h = \<lparr>outcomes = outcomes h, live = live h, c = [root_container], errmsg = []\<rparr>"

definition heap_of :: "state_t \<Rightarrow> heap" where
  "heap_of st = \<lparr>outcomes = outcomes st, live = live st\<rparr>"

text \<open>
  \<^verbatim>\<open>decode_1\<close> (lines 151-171). \<open>argv\<close> holds the \<^verbatim>\<open>argc\<close> arguments of the call. The local
  \<^verbatim>\<open>term\<close> is cell 0 of the array of the dummy container, the last of the list.
\<close>

definition decode_1 :: "(byte list \<Rightarrow> yajl_t) \<Rightarrow> heap \<Rightarrow> eterm list \<Rightarrow> fault + (nif_ret \<times> heap)" where
  "decode_1 Y h argv =
     (let st = init_state h
      in if int (length argv) \<noteq> 1 \<or> \<not> enif_is_binary (hd argv) then Inr (Badarg, h)
         else
           (case enif_inspect_binary (hd argv) of
              None \<Rightarrow> Inr (Badarg, h)
            | Some bin \<Rightarrow>
                (case parse_json Y st bin of
                   Inl x \<Rightarrow> Inl x
                 | Inr (Some err, st1) \<Rightarrow>
                     Inr (Ret (Tuple2 (Atom ''error'') (enif_make_string err)), heap_of st1)
                 | Inr (None, st1) \<Rightarrow>
                     (case c st1 of
                        [] \<Rightarrow> Inl NullDeref
                      | f # fs \<Rightarrow>
                          (case slot_read (array (last (f # fs))) 0 of
                             Inl x \<Rightarrow> Inl x
                           | Inr term \<Rightarrow> Inr (Ret (Tuple2 (Atom ''ok'') term), heap_of st1))))))"

section \<open>Documents\<close>

text \<open>
  A JSON document as a tree, the callbacks a parser makes for it in document order, and the
  Erlang term the header comment of the builder (lines 181-191) and the specification
  describe for it: an array is the list of its elements, an object the list of its
  key/value pairs.
\<close>

datatype json =
    JNull
  | JBool bool
  | JInteger "64 word"
  | JDouble "64 word"
  | JString "byte list"
  | JArray "json list"
  | JObject "(byte list \<times> json) list"

fun events_of :: "json \<Rightarrow> event list"
  and events_of_elements :: "json list \<Rightarrow> event list"
  and events_of_members :: "(byte list \<times> json) list \<Rightarrow> event list" where
  "events_of JNull = [EvNull]"
| "events_of (JBool b) = [EvBoolean (if b then 1 else 0)]"
| "events_of (JInteger i) = [EvInteger i]"
| "events_of (JDouble d) = [EvDouble d]"
| "events_of (JString s) = [EvString s]"
| "events_of (JArray xs) = EvStartArray # events_of_elements xs @ [EvEndArray]"
| "events_of (JObject kvs) = EvStartMap # events_of_members kvs @ [EvEndMap]"
| "events_of_elements [] = []"
| "events_of_elements (x # xs) = events_of x @ events_of_elements xs"
| "events_of_members [] = []"
| "events_of_members ((k, x) # kvs) = EvMapKey k # events_of x @ events_of_members kvs"

text \<open>The bytes a string payload is stored as: up to its first zero byte, then zeros.\<close>

definition stored :: "byte list \<Rightarrow> byte list" where
  "stored s = takeWhile (\<lambda>b. b \<noteq> 0) s @ replicate (length s - length (takeWhile (\<lambda>b. b \<noteq> 0) s)) 0"

fun erl_of :: "json \<Rightarrow> eterm"
  and erl_of_elements :: "json list \<Rightarrow> eterm list"
  and erl_of_members :: "(byte list \<times> json) list \<Rightarrow> eterm list" where
  "erl_of JNull = Atom ''undefined''"
| "erl_of (JBool b) = Atom (if b then ''true'' else ''false'')"
| "erl_of (JInteger i) = Long (sint i)"
| "erl_of (JDouble d) = Double d"
| "erl_of (JString s) = Binary (stored s)"
| "erl_of (JArray xs) = EList (erl_of_elements xs)"
| "erl_of (JObject kvs) = EList (erl_of_members kvs)"
| "erl_of_elements [] = []"
| "erl_of_elements (x # xs) = erl_of x # erl_of_elements xs"
| "erl_of_members [] = []"
| "erl_of_members ((k, x) # kvs) = Tuple2 (Binary (stored k)) (erl_of x) # erl_of_members kvs"

text \<open>
  Containers whose element count stays below \<open>2^30\<close>: doubling an \<^verbatim>\<open>int\<close> capacity of
  \<open>2^30\<close> overflows.
\<close>

fun small :: "json \<Rightarrow> bool"
  and small_elements :: "json list \<Rightarrow> bool"
  and small_members :: "(byte list \<times> json) list \<Rightarrow> bool" where
  "small JNull = True"
| "small (JBool b) = True"
| "small (JInteger i) = True"
| "small (JDouble d) = True"
| "small (JString s) = True"
| "small (JArray xs) = (length xs < 1073741824 \<and> small_elements xs)"
| "small (JObject kvs) = (length kvs < 1073741824 \<and> small_members kvs)"
| "small_elements [] = True"
| "small_elements (x # xs) = (small x \<and> small_elements xs)"
| "small_members [] = True"
| "small_members ((k, x) # kvs) = (small x \<and> small_members kvs)"

section \<open>Invariants\<close>

text \<open>
  The invariant of one container: the count lies within the capacity, and a pending key
  has a cell behind it.
\<close>

definition frame_inv :: "container_t \<Rightarrow> bool" where
  "frame_inv f \<longleftrightarrow> 0 \<le> count f \<and> count f \<le> arraysz f \<and> (key f \<longrightarrow> 1 \<le> count f)"

text \<open>
  The elements array matches the fields: a block of \<open>arraysz\<close> cells whose first \<open>count\<close>
  cells have been written, or no block and no element.
\<close>

definition storage_ok :: "container_t \<Rightarrow> bool" where
  "storage_ok f \<longleftrightarrow>
     (case array f of
        None \<Rightarrow> count f = 0
      | Some a \<Rightarrow> int (length a) = arraysz f \<and> None \<notin> set (take (nat (count f)) a))"

text \<open>The invariant of a container, alone (\<open>b\<close> false) or with its elements array.\<close>

definition frame_inv_with :: "bool \<Rightarrow> container_t \<Rightarrow> bool" where
  "frame_inv_with b f \<longleftrightarrow> frame_inv f \<and> (b \<longrightarrow> storage_ok f)"

text \<open>The elements of a container, in the order of their cells.\<close>

definition contents :: "container_t \<Rightarrow> eterm list" where
  "contents f = (case array f of None \<Rightarrow> [] | Some a \<Rightarrow> map the (take (nat (count f)) a))"

text \<open>
  A container made by \<^verbatim>\<open>handle_start\<close> whose allocations succeeded, at any later moment:
  its capacity is 16 or at most twice its count.
\<close>

definition building :: "container_t \<Rightarrow> bool" where
  "building f \<longleftrightarrow>
     dyn f \<and> frame_inv f \<and> storage_ok f \<and> array f \<noteq> None \<and> 0 < arraysz f \<and>
     (arraysz f \<le> 16 \<or> arraysz f \<le> 2 * count f)"

text \<open>The container that \<^verbatim>\<open>handle_start\<close> pushes when both of its allocations succeed.\<close>

definition fresh_container :: container_t where
  "fresh_container =
     \<lparr>count = 0, arraysz = 16, array = Some (replicate 16 None), key = False, dyn = True\<rparr>"

text \<open>
  The dummy container as it stays during a decode: last of the list, capacity 1, a block
  of one cell that is not from the allocator.
\<close>

definition root_inv :: "state_t \<Rightarrow> bool" where
  "root_inv st \<longleftrightarrow>
     c st \<noteq> [] \<and> arraysz (last (c st)) = 1 \<and> \<not> dyn (last (c st)) \<and>
     (\<exists>x. array (last (c st)) = Some [x])"

text \<open>
  The blocks that a list of containers made by \<^verbatim>\<open>handle_start\<close> holds: one per struct and
  one per array that is not \<^verbatim>\<open>NULL\<close>.
\<close>

fun blocks :: "container_t list \<Rightarrow> int" where
  "blocks [] = 0"
| "blocks (f # fs) = 1 + (if array f = None then 0 else 1) + blocks fs"

text \<open>
  The list of containers during a decode that started with \<open>l\<close> live blocks: the dummy
  container is last, every other container is from the allocator, and the live blocks
  beyond \<open>l\<close> are exactly those of the containers above the dummy one.
\<close>

definition stack_inv :: "int \<Rightarrow> state_t \<Rightarrow> bool" where
  "stack_inv l st \<longleftrightarrow>
     c st \<noteq> [] \<and> \<not> dyn (last (c st)) \<and> (\<forall>f \<in> set (butlast (c st)). dyn f) \<and>
     live st = l + blocks (butlast (c st))"

section \<open>Accepted documents\<close>

text \<open>
  A run of the parser library that accepts the document \<open>v\<close> and makes all of its callbacks
  inside \<^verbatim>\<open>yajl_parse\<close>.
\<close>

definition accepting :: "json \<Rightarrow> yajl_t" where
  "accepting v = \<lparr>handle_ok = True, parse_events = events_of v, parse_status = yajl_status_ok,
     complete_events = [], complete_status = yajl_status_ok, error_text = (\<lambda>ys. None)\<rparr>"

text \<open>The parser library accepting the document \<open>v\<close> whatever the buffer.\<close>

definition parser_for :: "json \<Rightarrow> byte list \<Rightarrow> yajl_t" where
  "parser_for v buf = accepting v"

text \<open>
  The parser library accepts the document \<open>v\<close>: it obtains a handle, makes the callbacks of
  \<open>v\<close>, some of them possibly only inside \<^verbatim>\<open>yajl_complete_parse\<close>, and reports no error.
\<close>

definition parses_as :: "yajl_t \<Rightarrow> json \<Rightarrow> bool" where
  "parses_as y v \<longleftrightarrow>
     handle_ok y \<and> parse_events y @ complete_events y = events_of v \<and>
     parse_status y = yajl_status_ok \<and> complete_status y = yajl_status_ok"

section \<open>Example inputs\<close>

text \<open>An allocator that grants every request, with no block handed out.\<close>

definition empty_heap :: heap where
  "empty_heap = \<lparr>outcomes = [], live = 0\<rparr>"

text \<open>An allocator that grants two requests and refuses the third.\<close>

definition tight_heap :: heap where
  "tight_heap = \<lparr>outcomes = [True, True, False], live = 0\<rparr>"

text \<open>An empty object just opened at the top level of a document.\<close>

definition open_state :: state_t where
  "open_state = \<lparr>outcomes = [], live = 2, c = [fresh_container, root_container], errmsg = []\<rparr>"

text \<open>The open object of \<open>open_state\<close> when the allocator refuses the next request.\<close>

definition starved_state :: state_t where
  "starved_state = open_state\<lparr>outcomes := [False]\<rparr>"

text \<open>An open object whose first key \<open>"k"\<close> waits for its value, inside the dummy container.\<close>

definition ex_frame :: container_t where
  "ex_frame = \<lparr>count = 1, arraysz = 16, array = Some (Some (Binary [107]) # replicate 15 None),
     key = True, dyn = True\<rparr>"

definition ex_state :: state_t where
  "ex_state = \<lparr>outcomes = [], live = 2, c = [ex_frame, root_container], errmsg = []\<rparr>"

text \<open>An array container whose 16 cells are all in use.\<close>

definition full_frame :: container_t where
  "full_frame = \<lparr>count = 16, arraysz = 16, array = Some (replicate 16 (Some (Long 0))),
     key = False, dyn = True\<rparr>"

definition full_state :: state_t where
  "full_state = \<lparr>outcomes = [], live = 2, c = [full_frame, root_container], errmsg = []\<rparr>"

text \<open>The document \<^verbatim>\<open>{"k":1,"k":2}\<close>.\<close>

definition dup_doc :: json where
  "dup_doc = JObject [([107], JInteger 1), ([107], JInteger 2)]"

text \<open>
  A parser run on \<^verbatim>\<open>[{\<close> followed by a bad byte: two containers are open when the
  library reports its error.
\<close>

definition rejecting :: "byte list \<Rightarrow> yajl_t" where
  "rejecting buf = \<lparr>handle_ok = True, parse_events = [EvStartArray, EvStartMap],
     parse_status = yajl_status_error, complete_events = [], complete_status = yajl_status_ok,
     error_text = (\<lambda>ys. Some [101, 114, 114])\<rparr>"

text \<open>A run of the parser library in which \<^verbatim>\<open>yajl_alloc\<close> returns no handle.\<close>

definition no_handle :: "byte list \<Rightarrow> yajl_t" where
  "no_handle buf = (accepting JNull)\<lparr>handle_ok := False\<rparr>"


text \<open>An array of 17 elements: its 17th append finds the 16 cells in use.\<close>

definition seventeen :: json where
  "seventeen = JArray [JNull, JNull, JNull, JNull, JNull, JNull, JNull, JNull, JNull, JNull,
     JNull, JNull, JNull, JNull, JNull, JNull, JNull]"

section \<open>Properties of the builder\<close>

lemma next_alloc_fields:
  "next_alloc st = (ok, st1) \<Longrightarrow> c st1 = c st \<and> live st1 = live st \<and> errmsg st1 = errmsg st"
  by (auto simp: next_alloc_def split: list.splits)

lemma next_alloc_empty: "outcomes st = [] \<Longrightarrow> next_alloc st = (True, st)"
  by (simp add: next_alloc_def)

lemma enif_realloc_Some:
  assumes "enif_realloc st p n = (Some a1, st1)"
  shows "0 \<le> n \<and> length a1 = nat n \<and> c st1 = c st \<and> errmsg st1 = errmsg st \<and>
         live st1 = live st + (if p = None then 1 else 0) \<and>
         (\<forall>a i. p = Some a \<and> i < length a \<and> i < nat n \<longrightarrow> a1 ! i = a ! i)"
  using assms
  by (auto simp: enif_realloc_def Let_def nth_append split: prod.splits if_splits option.splits
      dest!: next_alloc_fields)

lemma enif_realloc_fields:
  assumes "enif_realloc st p n = (q, st1)"
  shows "c st1 = c st \<and> errmsg st1 = errmsg st"
  using assms
  by (auto simp: enif_realloc_def Let_def split: prod.splits if_splits option.splits
      dest!: next_alloc_fields)

lemma grow_Inr:
  assumes "grow st f = Inr (f1, st1)"
  shows "(count f < arraysz f \<and> f1 = f \<and> st1 = st) \<or>
         (arraysz f \<le> count f \<and> dyn f \<and> arraysz f * 2 \<le> INT_MAX \<and>
          (\<exists>p. f1 = f\<lparr>arraysz := arraysz f * 2, array := p\<rparr> \<and>
               enif_realloc st (array f) (arraysz f * 2) = (p, st1)))"
  using assms
  by (auto simp: grow_def Let_def split: if_splits prod.splits)

lemma store_Inr:
  assumes "store st f fs t = Inr st'"
  shows "\<exists>a. array f = Some a \<and>
     (if key f
      then 1 \<le> count f \<and> count f \<le> int (length a) \<and>
           (\<exists>k. a ! nat (count f - 1) = Some k \<and>
             st' = st\<lparr>c := f\<lparr>array := Some (a[nat (count f - 1) := Some (Tuple2 k t)]), key := False\<rparr> # fs\<rparr>)
      else 0 \<le> count f \<and> count f < int (length a) \<and> count f \<noteq> INT_MAX \<and>
           st' = st\<lparr>c := f\<lparr>array := Some (a[nat (count f) := Some t]), count := count f + 1\<rparr> # fs\<rparr>)"
  using assms
  by (auto simp: store_def slot_read_def slot_write_def split: if_splits sum.splits option.splits)

lemma add_element_Cons:
  "c st = f # fs \<Longrightarrow>
   add_element st t = (case grow st f of Inl e \<Rightarrow> Inl e | Inr (f1, st1) \<Rightarrow> store st1 f1 fs t)"
  by (simp add: add_element_def)

lemma add_element_Inr:
  assumes "c st = f # fs" and "add_element st t = Inr st'"
  obtains f1 st1 where "grow st f = Inr (f1, st1)" "store st1 f1 fs t = Inr st'"
  using assms by (auto simp: add_element_Cons split: sum.splits)


lemma slot_read_Inr: "slot_read p i = Inr v \<longleftrightarrow> (\<exists>a. p = Some a \<and> 0 \<le> i \<and> i < int (length a) \<and> a ! nat i = Some v)"
  by (auto simp: slot_read_def split: option.splits)

lemma grow_keeps:
  assumes "grow st f = Inr (f1, st1)"
  shows "count f1 = count f \<and> key f1 = key f \<and> dyn f1 = dyn f \<and> c st1 = c st \<and> errmsg st1 = errmsg st"
  using grow_Inr [OF assms] by (auto dest: enif_realloc_fields)

lemma grow_slots:
  assumes "grow st f = Inr (f1, st1)" and "array f1 = Some a1" and "slot_read (array f) i = Inr v"
    and "i < int (length a1)"
  shows "a1 ! nat i = Some v"
  using grow_Inr [OF assms(1)] assms(2-4)
  by (auto simp: slot_read_Inr dest!: enif_realloc_Some)

lemma storage_ok_nth:
  assumes "storage_ok f" and "array f = Some a" and "0 \<le> i" and "i < count f" and "count f \<le> arraysz f"
  shows "\<exists>v. a ! nat i = Some v"
proof -
  from assms have len: "int (length a) = arraysz f" and nn: "None \<notin> set (take (nat (count f)) a)"
    by (simp_all add: storage_ok_def)
  from assms len have "nat i < length (take (nat (count f)) a)" by simp
  then have "take (nat (count f)) a ! nat i \<in> set (take (nat (count f)) a)"
    by (rule nth_mem)
  moreover have "take (nat (count f)) a ! nat i = a ! nat i" using assms by simp
  ultimately show ?thesis using nn by (cases "a ! nat i") auto
qed

lemma store_returns:
  assumes "array f = Some a" and "0 \<le> count f" and "count f < int (length a) \<or> key f"
    and "count f \<le> int (length a)"
    and "key f \<longrightarrow> 1 \<le> count f \<and> (\<exists>v. a ! nat (count f - 1) = Some v)" and "count f \<noteq> INT_MAX"
  shows "\<exists>st'. store st f fs t = Inr st'"
  using assms by (auto simp: store_def slot_read_def slot_write_def)

lemma add_element_returns:
  assumes "c st = f # fs" and "frame_inv f" and "storage_ok f" and "array f \<noteq> None"
    and "count f < arraysz f \<and> arraysz f \<le> INT_MAX \<or>
         dyn f \<and> 0 < arraysz f \<and> arraysz f * 2 \<le> INT_MAX \<and> fst (next_alloc st)"
  shows "\<exists>st'. add_element st t = Inr st'"
proof -
  from assms(4) obtain a where a: "array f = Some a" by auto
  from assms(3) a have len: "int (length a) = arraysz f" by (simp add: storage_ok_def)
  from assms(2) have fi: "0 \<le> count f" "count f \<le> arraysz f" "key f \<longrightarrow> 1 \<le> count f"
    by (simp_all add: frame_inv_def)
  have kv: "key f \<longrightarrow> (\<exists>v. a ! nat (count f - 1) = Some v)"
  proof
    assume "key f"
    with fi have "0 \<le> count f - 1" "count f - 1 < count f" by simp_all
    from storage_ok_nth [OF assms(3) a this fi(2)] show "\<exists>v. a ! nat (count f - 1) = Some v" .
  qed
  show ?thesis
  proof (cases "count f < arraysz f")
    case True
    then have g: "grow st f = Inr (f, st)" by (simp add: grow_def)
    from True assms(5) fi have "count f \<noteq> INT_MAX" by auto
    with True len fi kv a have "\<exists>st'. store st f fs t = Inr st'"
      by (intro store_returns [where a = a]) auto
    with g assms(1) show ?thesis by (simp add: add_element_Cons)
  next
    case False
    with assms(5) fi have eq: "count f = arraysz f" and d: "dyn f" "0 < arraysz f"
      "arraysz f * 2 \<le> INT_MAX" "fst (next_alloc st)"
      by auto
    obtain st1 where n: "next_alloc st = (True, st1)"
      using d(4) by (cases "next_alloc st") auto
    let ?a1 = "take (nat (arraysz f * 2)) a @ replicate (nat (arraysz f * 2) - length a) None"
    let ?f1 = "f\<lparr>arraysz := arraysz f * 2, array := Some ?a1\<rparr>"
    have r: "enif_realloc st (array f) (arraysz f * 2) = (Some ?a1, st1)"
      using a n d by (simp add: enif_realloc_def)
    have g: "grow st f = Inr (?f1, st1)"
      using eq d r by (simp add: grow_def INT_MIN_def)
    have l1: "int (length ?a1) = arraysz f * 2" using len d by auto
    have lt: "nat (count f - 1) < length a" using len eq d by linarith
    have tk: "take (nat (arraysz f * 2)) a = a" using len d by simp
    have old: "?a1 ! nat (count f - 1) = a ! nat (count f - 1)"
      using lt tk by (simp add: nth_append)
    have "count f \<noteq> INT_MAX" using eq d by simp
    with l1 eq d fi kv old have "\<exists>st'. store st1 ?f1 fs t = Inr st'"
      by (intro store_returns [where a = ?a1]) auto
    with g assms(1) show ?thesis by (simp add: add_element_Cons)
  qed
qed

lemma building_D:
  assumes "building f"
  obtains a where "array f = Some a" "int (length a) = arraysz f" "0 \<le> count f" "count f \<le> arraysz f"
    "None \<notin> set (take (nat (count f)) a)" "dyn f" "0 < arraysz f"
    "arraysz f \<le> 16 \<or> arraysz f \<le> 2 * count f" "key f \<longrightarrow> 1 \<le> count f"
  using assms by (auto simp: building_def frame_inv_def storage_ok_def)

lemma building_I:
  assumes "array f = Some a" "int (length a) = arraysz f" "0 \<le> count f" "count f \<le> arraysz f"
    "None \<notin> set (take (nat (count f)) a)" "dyn f" "0 < arraysz f"
    "arraysz f \<le> 16 \<or> arraysz f \<le> 2 * count f" "key f \<longrightarrow> 1 \<le> count f"
  shows "building f"
  using assms by (auto simp: building_def frame_inv_def storage_ok_def)

text \<open>Growth of a container in normal operation when every allocation succeeds.\<close>

lemma grow_building:
  assumes "outcomes st = []" and "building f" and "count f < 1073741824"
  shows "\<exists>f1. grow st f = Inr (f1, st) \<and> building f1 \<and> count f1 = count f \<and> key f1 = key f \<and>
     contents f1 = contents f \<and> (key f \<or> count f1 < arraysz f1)"
proof -
  from assms(2) obtain a where a: "array f = Some a" "int (length a) = arraysz f" "0 \<le> count f"
    "count f \<le> arraysz f" "None \<notin> set (take (nat (count f)) a)" "dyn f" "0 < arraysz f"
    "arraysz f \<le> 16 \<or> arraysz f \<le> 2 * count f" "key f \<longrightarrow> 1 \<le> count f"
    by (rule building_D)
  show ?thesis
  proof (cases "arraysz f \<le> count f")
    case False
    then have "grow st f = Inr (f, st)" by (simp add: grow_def)
    with False assms(2) show ?thesis by auto
  next
    case True
    with a have eq: "count f = arraysz f" by simp
    let ?a1 = "a @ replicate (nat (arraysz f * 2) - length a) None"
    let ?f1 = "f\<lparr>arraysz := arraysz f * 2, array := Some ?a1\<rparr>"
    have len: "nat (arraysz f * 2) \<ge> length a" using a by linarith
    have r: "enif_realloc st (array f) (arraysz f * 2) = (Some ?a1, st)"
      using a assms(1) len by (simp add: enif_realloc_def next_alloc_empty)
    have g: "grow st f = Inr (?f1, st)"
      using True a assms(3) eq r by (simp add: grow_def INT_MAX_def INT_MIN_def)
    have tk: "take (nat (count f)) ?a1 = take (nat (count f)) a"
      using a eq by simp
    have "building ?f1"
      apply (rule building_I [where a = ?a1])
      using a eq tk by simp_all
    moreover have "contents ?f1 = contents f"
      using a tk by (simp add: contents_def)
    moreover have "count ?f1 < arraysz ?f1" using a eq by simp
    ultimately show ?thesis using g by auto
  qed
qed

lemma append_building:
  assumes "outcomes st = []" and "c st = f # fs" and "building f" and "\<not> key f"
    and "count f < 1073741824"
  shows "\<exists>f'. add_element st t = Inr (st\<lparr>c := f' # fs\<rparr>) \<and> building f' \<and> \<not> key f' \<and>
     count f' = count f + 1 \<and> contents f' = contents f @ [t]"
proof -
  from grow_building [OF assms(1,3,5)] assms(4) obtain f1 where
    g: "grow st f = Inr (f1, st)" and b1: "building f1" and k: "count f1 = count f" "\<not> key f1"
    and ct: "contents f1 = contents f" and lt: "count f1 < arraysz f1"
    by auto
  from b1 obtain a where a: "array f1 = Some a" "int (length a) = arraysz f1" "0 \<le> count f1"
    "count f1 \<le> arraysz f1" "None \<notin> set (take (nat (count f1)) a)" "dyn f1" "0 < arraysz f1"
    "arraysz f1 \<le> 16 \<or> arraysz f1 \<le> 2 * count f1" "key f1 \<longrightarrow> 1 \<le> count f1"
    by (rule building_D)
  let ?a' = "a[nat (count f1) := Some t]"
  let ?f' = "f1\<lparr>array := Some ?a', count := count f1 + 1\<rparr>"
  have n: "nat (count f1) < length a" using a lt by linarith
  have mx: "count f1 \<noteq> INT_MAX" using k assms(5) by (simp add: INT_MAX_def)
  have s: "store st f1 fs t = Inr (st\<lparr>c := ?f' # fs\<rparr>)"
    using a lt k mx by (simp add: store_def slot_write_def)
  have tk: "take (nat (count f1 + 1)) ?a' = take (nat (count f1)) a @ [Some t]"
  proof -
    have "nat (count f1 + 1) = Suc (nat (count f1))" using a by simp
    then show ?thesis using n by (simp add: take_Suc_conv_app_nth)
  qed
  have "building ?f'"
    apply (rule building_I [where a = ?a'])
    using a lt tk k by auto
  moreover have "contents ?f' = contents f @ [t]"
    using a tk ct by (simp add: contents_def)
  ultimately show ?thesis
    using g s k assms(2) by (auto simp: add_element_Cons)
qed

lemma fuse_building:
  assumes "outcomes st = []" and "c st = f # fs" and "building f" and "key f"
    and "count f < 1073741824"
  shows "\<exists>f'. add_element st t = Inr (st\<lparr>c := f' # fs\<rparr>) \<and> building f' \<and> \<not> key f' \<and>
     count f' = count f \<and> contents f' = butlast (contents f) @ [Tuple2 (last (contents f)) t]"
proof -
  from grow_building [OF assms(1,3,5)] assms(4) obtain f1 where
    g: "grow st f = Inr (f1, st)" and b1: "building f1" and k: "count f1 = count f" "key f1"
    and ct: "contents f1 = contents f"
    by auto
  from b1 obtain a where a: "array f1 = Some a" "int (length a) = arraysz f1" "0 \<le> count f1"
    "count f1 \<le> arraysz f1" "None \<notin> set (take (nat (count f1)) a)" "dyn f1" "0 < arraysz f1"
    "arraysz f1 \<le> 16 \<or> arraysz f1 \<le> 2 * count f1" "key f1 \<longrightarrow> 1 \<le> count f1"
    by (rule building_D)
  define n where "n = nat (count f1 - 1)"
  have cn: "nat (count f1) = Suc n" "n < length a" "count f1 - 1 = int n"
    using a k by (simp_all add: n_def)
  have tk0: "take (Suc n) a = take n a @ [a ! n]"
    using cn by (simp add: take_Suc_conv_app_nth)
  with a cn obtain k0 where k0: "a ! n = Some k0"
    by (cases "a ! n") auto
  let ?a' = "a[n := Some (Tuple2 k0 t)]"
  let ?f' = "f1\<lparr>array := Some ?a', key := False\<rparr>"
  have s: "store st f1 fs t = Inr (st\<lparr>c := ?f' # fs\<rparr>)"
    using a k cn k0 by (simp add: store_def slot_write_def slot_read_def)
  have tk: "take (Suc n) ?a' = take n a @ [Some (Tuple2 k0 t)]"
    using cn by (simp add: take_Suc_conv_app_nth)
  have "building ?f'"
    apply (rule building_I [where a = ?a'])
    using a cn tk tk0 by auto
  moreover have "contents ?f' = butlast (contents f) @ [Tuple2 (last (contents f)) t]"
    using a cn tk tk0 k0 ct [symmetric] by (simp add: contents_def)
  ultimately show ?thesis
    using g s k assms(2) by (auto simp: add_element_Cons)
qed

lemma strncpy_take:
  "n \<le> length s \<Longrightarrow>
   strncpy s n = Some (takeWhile (\<lambda>b. b \<noteq> 0) (take n s) @
                       replicate (n - length (takeWhile (\<lambda>b. b \<noteq> 0) (take n s))) 0)"
proof (induction s n rule: strncpy.induct)
  case (1 src)
  then show ?case by simp
next
  case (2 n)
  then show ?case by simp
next
  case (3 b src n)
  then show ?case by (simp add: replicate_Suc [symmetric] del: replicate_Suc)
qed

lemma strncpy_stored: "strncpy s (length s) = Some (stored s)"
  using strncpy_take [of "length s" s] by (simp add: stored_def)

lemma length_stored: "length (stored s) = length s"
  using length_takeWhile_le [of "\<lambda>b. b \<noteq> 0" s] by (simp add: stored_def)

lemma run_callbacks_append:
  "run_callbacks (xs @ ys) st =
     (case run_callbacks xs st of
        Inl x \<Rightarrow> Inl x
      | Inr (r, st1) \<Rightarrow> if r = 0 then Inr (0, st1) else run_callbacks ys st1)"
  by (induction xs arbitrary: st) (auto split: sum.splits)

lemma run_callbacks_append_ok:
  "run_callbacks xs st = Inr (1, st1) \<Longrightarrow> run_callbacks (xs @ ys) st = run_callbacks ys st1"
  by (simp add: run_callbacks_append)

lemma run_callbacks_Cons_ok:
  "callbacks e st = Inr (1, st1) \<Longrightarrow> run_callbacks (e # es) st = run_callbacks es st1"
  by simp

text \<open>The count of live blocks has no influence on \<^verbatim>\<open>add_element\<close>.\<close>

lemma next_alloc_live:
  "next_alloc (st\<lparr>live := l\<rparr>) = (fst (next_alloc st), (snd (next_alloc st))\<lparr>live := l\<rparr>)"
  by (simp add: next_alloc_def split: list.splits)

lemma next_alloc_live_eq: "live (snd (next_alloc st)) = live st"
  by (simp add: next_alloc_def split: list.splits)

lemma enif_realloc_live:
  "enif_realloc st p n = (q, st1) \<Longrightarrow>
   enif_realloc (st\<lparr>live := live st + d\<rparr>) p n = (q, st1\<lparr>live := live st1 + d\<rparr>)"
  by (auto simp: enif_realloc_def next_alloc_live Let_def next_alloc_live_eq [of st, symmetric]
      split: prod.splits if_splits option.splits)

lemma grow_live:
  "grow st f = Inr (f1, st1) \<Longrightarrow>
   grow (st\<lparr>live := live st + d\<rparr>) f = Inr (f1, st1\<lparr>live := live st1 + d\<rparr>)"
proof (cases "arraysz f \<le> count f")
  case True
  assume g: "grow st f = Inr (f1, st1)"
  obtain p s1 where r: "enif_realloc st (array f) (arraysz f * 2) = (p, s1)"
    by (cases "enif_realloc st (array f) (arraysz f * 2)")
  from enif_realloc_live [OF r, of d] r g True show ?thesis
    by (simp add: grow_def split: if_splits)
next
  case False
  assume "grow st f = Inr (f1, st1)"
  with False show ?thesis by (simp add: grow_def)
qed

lemma store_live:
  "store st f fs t = Inr st' \<Longrightarrow>
   store (st\<lparr>live := live st + d\<rparr>) f fs t = Inr (st'\<lparr>live := live st' + d\<rparr>)"
  by (auto simp: store_def split: if_splits sum.splits)

lemma add_element_live:
  assumes "add_element st t = Inr st'"
  shows "add_element (st\<lparr>live := live st + d\<rparr>) t = Inr (st'\<lparr>live := live st' + d\<rparr>)"
proof (cases "c st")
  case Nil
  with assms show ?thesis by (simp add: add_element_def)
next
  case (Cons f fs)
  from Cons assms obtain f1 st1 where "grow st f = Inr (f1, st1)" "store st1 f1 fs t = Inr st'"
    by (rule add_element_Inr)
  then show ?thesis
    using Cons grow_live [of st f f1 st1 d] store_live [of st1 f1 fs t st' "d"]
    by (simp add: add_element_def)
qed

lemma building_fresh: "building fresh_container \<and> \<not> key fresh_container \<and>
    count fresh_container = 0 \<and> contents fresh_container = []"
  by (simp add: fresh_container_def building_def frame_inv_def storage_ok_def contents_def)

lemma handle_start_ok:
  assumes "outcomes st = []"
  shows "handle_start st = Inr (1, st\<lparr>live := live st + 2, c := fresh_container # c st\<rparr>)"
  using assms
  by (simp add: handle_start_def enif_alloc_struct_def enif_alloc_def next_alloc_def
      fresh_container_def)

lemma make_list_building:
  assumes "building f"
  shows "enif_make_list_from_array (array f) (count f) = Inr (EList (contents f))"
proof -
  from assms obtain a where a: "array f = Some a" "int (length a) = arraysz f" "0 \<le> count f"
    "count f \<le> arraysz f" "None \<notin> set (take (nat (count f)) a)"
    by (rule building_D)
  then show ?thesis
    by (simp add: enif_make_list_from_array_def contents_def)
qed

lemma handle_end_building:
  assumes "c st = f # fs" and "building f"
    and "add_element (st\<lparr>c := fs\<rparr>) (EList (contents f)) = Inr st1"
  shows "handle_end st = Inr (1, st1\<lparr>live := live st1 - 2\<rparr>)"
proof -
  from assms(2) obtain a where a: "array f = Some a" "dyn f"
    by (rule building_D)
  show ?thesis
    using assms(1,3) a make_list_building [OF assms(2)]
    by (simp add: handle_end_def free_array_def enif_free_def)
qed

lemma handle_map_key_building:
  assumes "outcomes st = []" and "c st = f # fs" and "building f" and "\<not> key f"
    and "count f < 1073741823"
  shows "\<exists>f'. handle_map_key st s (length s) = Inr (1, st\<lparr>c := f' # fs\<rparr>) \<and> building f' \<and> key f' \<and>
     count f' = count f + 1 \<and> contents f' = contents f @ [Binary (stored s)]"
proof -
  from assms(5) have "count f < 1073741824" by simp
  from append_building [OF assms(1-4) this, of "Binary (stored s)"] obtain f1 where
    f1: "add_element st (Binary (stored s)) = Inr (st\<lparr>c := f1 # fs\<rparr>)" "building f1"
      "count f1 = count f + 1" "contents f1 = contents f @ [Binary (stored s)]"
    by blast
  have "building (f1\<lparr>key := True\<rparr>)"
    using f1(2,3) assms(3) by (auto simp: building_def frame_inv_def storage_ok_def)
  moreover have "contents (f1\<lparr>key := True\<rparr>) = contents f1"
    by (cases "array f1") (simp_all add: contents_def)
  moreover have "handle_map_key st s (length s) = Inr (1, st\<lparr>c := f1\<lparr>key := True\<rparr> # fs\<rparr>)"
    using assms(1) f1(1) by (simp add: handle_map_key_def next_alloc_empty strncpy_stored)
  ultimately show ?thesis using f1 by auto
qed

lemma run_value:
  "small v \<Longrightarrow> outcomes st = [] \<Longrightarrow> add_element st (erl_of v) = Inr st' \<Longrightarrow>
     run_callbacks (events_of v) st = Inr (1, st')"
  "small_elements xs \<Longrightarrow> outcomes st = [] \<Longrightarrow> c st = f # fs \<Longrightarrow> building f \<Longrightarrow> \<not> key f \<Longrightarrow>
     count f + int (length xs) < 1073741824 \<Longrightarrow>
     \<exists>f'. run_callbacks (events_of_elements xs) st = Inr (1, st\<lparr>c := f' # fs\<rparr>) \<and> building f' \<and>
       \<not> key f' \<and> count f' = count f + int (length xs) \<and>
       contents f' = contents f @ erl_of_elements xs"
  "small_members kvs \<Longrightarrow> outcomes st = [] \<Longrightarrow> c st = f # fs \<Longrightarrow> building f \<Longrightarrow> \<not> key f \<Longrightarrow>
     count f + int (length kvs) < 1073741824 \<Longrightarrow>
     \<exists>f'. run_callbacks (events_of_members kvs) st = Inr (1, st\<lparr>c := f' # fs\<rparr>) \<and> building f' \<and>
       \<not> key f' \<and> count f' = count f + int (length kvs) \<and>
       contents f' = contents f @ erl_of_members kvs"
proof (induction v and xs and kvs arbitrary: st st' and st f fs and st f fs
    rule: events_of_events_of_elements_events_of_members.induct)
  case 1
  then show ?case by (simp add: handle_null_def returning_def)
next
  case (2 b)
  then show ?case by (cases b) (simp_all add: handle_boolean_def returning_def)
next
  case (3 i)
  then show ?case by (simp add: handle_integer_def returning_def)
next
  case (4 d)
  then show ?case by (simp add: handle_double_def returning_def)
next
  case (5 s)
  then show ?case
    by (simp add: handle_string_def returning_def next_alloc_empty strncpy_stored)
next
  case (6 xs)
  let ?st2 = "st\<lparr>live := live st + 2, c := fresh_container # c st\<rparr>"
  have o2: "outcomes ?st2 = []" using "6.prems" by simp
  have c2: "c ?st2 = fresh_container # c st" by simp
  from "6.prems" have sm: "small_elements xs" and len: "count fresh_container + int (length xs) < 1073741824"
    by (simp_all add: building_fresh)
  from "6.IH" [OF sm o2 c2 _ _ len] building_fresh obtain f' where
    run: "run_callbacks (events_of_elements xs) ?st2 = Inr (1, ?st2\<lparr>c := f' # c st\<rparr>)"
    and b: "building f'" and ct: "contents f' = erl_of_elements xs"
    by auto
  have "add_element (st\<lparr>live := live st + 2\<rparr>) (EList (contents f')) = Inr (st'\<lparr>live := live st' + 2\<rparr>)"
    using add_element_live [of st "erl_of (JArray xs)" st' 2] "6.prems" ct by simp
  then have "add_element (?st2\<lparr>c := f' # c st\<rparr>\<lparr>c := c st\<rparr>) (EList (contents f')) = Inr (st'\<lparr>live := live st' + 2\<rparr>)"
    by simp
  from handle_end_building [OF _ b this]
  have e: "handle_end (?st2\<lparr>c := f' # c st\<rparr>) = Inr (1, st')" by simp
  have s: "callbacks EvStartArray st = Inr (1, ?st2)"
    using "6.prems" by (simp add: handle_start_array_def handle_start_ok)
  show ?case
    using s run e
    by (simp add: run_callbacks_append handle_end_array_def del: run_callbacks.simps(2) add: run_callbacks_Cons_ok)
next
  case (7 kvs)
  let ?st2 = "st\<lparr>live := live st + 2, c := fresh_container # c st\<rparr>"
  have o2: "outcomes ?st2 = []" using "7.prems" by simp
  have c2: "c ?st2 = fresh_container # c st" by simp
  from "7.prems" have sm: "small_members kvs" and len: "count fresh_container + int (length kvs) < 1073741824"
    by (simp_all add: building_fresh)
  from "7.IH" [OF sm o2 c2 _ _ len] building_fresh obtain f' where
    run: "run_callbacks (events_of_members kvs) ?st2 = Inr (1, ?st2\<lparr>c := f' # c st\<rparr>)"
    and b: "building f'" and ct: "contents f' = erl_of_members kvs"
    by auto
  have "add_element (st\<lparr>live := live st + 2\<rparr>) (EList (contents f')) = Inr (st'\<lparr>live := live st' + 2\<rparr>)"
    using add_element_live [of st "erl_of (JObject kvs)" st' 2] "7.prems" ct by simp
  then have "add_element (?st2\<lparr>c := f' # c st\<rparr>\<lparr>c := c st\<rparr>) (EList (contents f')) = Inr (st'\<lparr>live := live st' + 2\<rparr>)"
    by simp
  from handle_end_building [OF _ b this]
  have e: "handle_end (?st2\<lparr>c := f' # c st\<rparr>) = Inr (1, st')" by simp
  have s: "callbacks EvStartMap st = Inr (1, ?st2)"
    using "7.prems" by (simp add: handle_start_map_def handle_start_ok)
  show ?case
    using s run e
    by (simp add: run_callbacks_append handle_end_map_def del: run_callbacks.simps(2) add: run_callbacks_Cons_ok)
next
  case 8
  then have "st = st\<lparr>c := f # fs\<rparr>" by simp
  with 8 show ?case by (intro exI [of _ f]) simp
next
  case (9 x xs)
  from "9.prems" have lt: "count f < 1073741824" by simp
  from append_building [OF "9.prems"(2,3,4,5) lt, of "erl_of x"] obtain f1 where
    a: "add_element st (erl_of x) = Inr (st\<lparr>c := f1 # fs\<rparr>)" and b1: "building f1" "\<not> key f1"
    and c1: "count f1 = count f + 1" and ct1: "contents f1 = contents f @ [erl_of x]"
    by blast
  from "9.prems" have smx: "small x" and smxs: "small_elements xs" by simp_all
  from "9.IH"(1) [OF smx "9.prems"(2) a]
  have r1: "run_callbacks (events_of x) st = Inr (1, st\<lparr>c := f1 # fs\<rparr>)" .
  have o1: "outcomes (st\<lparr>c := f1 # fs\<rparr>) = []" using "9.prems" by simp
  have len: "count f1 + int (length xs) < 1073741824" using c1 "9.prems" by simp
  from "9.IH"(2) [OF smxs o1 _ b1 len, of fs] obtain f' where
    r2: "run_callbacks (events_of_elements xs) (st\<lparr>c := f1 # fs\<rparr>) = Inr (1, st\<lparr>c := f' # fs\<rparr>)"
    and b': "building f'" "\<not> key f'" "count f' = count f1 + int (length xs)"
      "contents f' = contents f1 @ erl_of_elements xs"
    by auto
  show ?case
    using r1 r2 b' c1 ct1 by (auto simp: run_callbacks_append)
next
  case 10
  then have "st = st\<lparr>c := f # fs\<rparr>" by simp
  with 10 show ?case by (intro exI [of _ f]) simp
next
  case (11 k x kvs)
  from "11.prems" have lt: "count f < 1073741823" by simp
  from handle_map_key_building [OF "11.prems"(2,3,4,5) lt, of k] obtain f1 where
    h: "handle_map_key st k (length k) = Inr (1, st\<lparr>c := f1 # fs\<rparr>)" and b1: "building f1" "key f1"
    and c1: "count f1 = count f + 1" and ct1: "contents f1 = contents f @ [Binary (stored k)]"
    by blast
  have o1: "outcomes (st\<lparr>c := f1 # fs\<rparr>) = []" using "11.prems" by simp
  have lt1: "count f1 < 1073741824" using c1 lt by simp
  from fuse_building [OF o1 _ b1 lt1, of fs "erl_of x"] obtain f2 where
    a: "add_element (st\<lparr>c := f1 # fs\<rparr>) (erl_of x) = Inr (st\<lparr>c := f2 # fs\<rparr>)"
    and b2: "building f2" "\<not> key f2" and c2: "count f2 = count f1"
    and ct2: "contents f2 = butlast (contents f1) @ [Tuple2 (last (contents f1)) (erl_of x)]"
    by auto
  from "11.prems" have smx: "small x" and smk: "small_members kvs" by simp_all
  from "11.IH"(1) [OF smx o1 a]
  have r1: "run_callbacks (events_of x) (st\<lparr>c := f1 # fs\<rparr>) = Inr (1, st\<lparr>c := f2 # fs\<rparr>)" .
  have o2: "outcomes (st\<lparr>c := f2 # fs\<rparr>) = []" using "11.prems" by simp
  have len: "count f2 + int (length kvs) < 1073741824" using c1 c2 "11.prems" by simp
  from "11.IH"(2) [OF smk o2 _ b2 len, of fs] obtain f' where
    r2: "run_callbacks (events_of_members kvs) (st\<lparr>c := f2 # fs\<rparr>) = Inr (1, st\<lparr>c := f' # fs\<rparr>)"
    and b': "building f'" "\<not> key f'" "count f' = count f2 + int (length kvs)"
      "contents f' = contents f2 @ erl_of_members kvs"
    by auto
  show ?case
    using h r1 r2 b' c1 c2 ct1 ct2 by (auto simp: run_callbacks_append)
qed

lemma run_callbacks_split:
  assumes "run_callbacks (xs @ ys) st = Inr (1, st')"
  obtains r st1 where "run_callbacks xs st = Inr (r, st1)" "r \<noteq> 0" "run_callbacks ys st1 = Inr (1, st')"
  using assms by (auto simp: run_callbacks_append split: sum.splits if_splits)

lemma yajl_run_ok:
  assumes "run_callbacks (parse_events y @ complete_events y) st = Inr (1, st')"
    and "parse_status y = yajl_status_ok" and "complete_status y = yajl_status_ok"
  shows "yajl_run y st = Inr (yajl_status_ok, st')"
proof -
  from assms(1) obtain r st1 where "run_callbacks (parse_events y) st = Inr (r, st1)" "r \<noteq> 0"
    "run_callbacks (complete_events y) st1 = Inr (1, st')"
    by (rule run_callbacks_split)
  with assms(2,3) show ?thesis by (simp add: yajl_run_def yajl_call_def)
qed

lemma add_element_root:
  "add_element (init_state h) t =
     Inr ((init_state h)\<lparr>c := [root_container\<lparr>array := Some [Some t], count := 1\<rparr>]\<rparr>)"
  by (simp add: add_element_def grow_def store_def slot_write_def init_state_def
      root_container_def INT_MAX_def)

lemma decode_value:
  assumes "outcomes h = []" and "parses_as (Y buf) v" and "small v"
  shows "decode_1 Y h [Binary buf] = Inr (Ret (Tuple2 (Atom ''ok'') (erl_of v)), h)"
proof -
  let ?st' = "(init_state h)\<lparr>c := [root_container\<lparr>array := Some [Some (erl_of v)], count := 1\<rparr>]\<rparr>"
  have o: "outcomes (init_state h) = []" using assms(1) by (simp add: init_state_def)
  from run_value(1) [OF assms(3) o add_element_root]
  have "run_callbacks (events_of v) (init_state h) = Inr (1, ?st')" .
  with assms(2) have "yajl_run (Y buf) (init_state h) = Inr (yajl_status_ok, ?st')"
    by (intro yajl_run_ok) (simp_all add: parses_as_def)
  moreover have "handle_ok (Y buf)" using assms(2) by (simp add: parses_as_def)
  ultimately have "parse_json Y (init_state h) buf = Inr (None, ?st')"
    by (simp add: parse_json_def)
  moreover have "heap_of ?st' = h"
    by (simp add: heap_of_def init_state_def)
  ultimately show ?thesis
    by (simp add: decode_1_def enif_is_binary_def enif_inspect_binary_def slot_read_def)
qed

lemma erl_of_elements_map: "erl_of_elements xs = map erl_of xs"
  by (induction xs) simp_all

lemma erl_of_members_map:
  "erl_of_members kvs = map (\<lambda>p. Tuple2 (Binary (stored (fst p))) (erl_of (snd p))) kvs"
  by (induction kvs) auto

lemma parses_as_accepting: "parses_as (accepting v) v"
  by (simp add: parses_as_def accepting_def)

lemma add_element_root_inv:
  assumes "root_inv st" and "add_element st t = Inr st'"
  shows "root_inv st'"
proof -
  from assms(1) obtain f fs where cs: "c st = f # fs" by (cases "c st") (auto simp: root_inv_def)
  from cs assms(2) obtain f1 st1 where g: "grow st f = Inr (f1, st1)" and s: "store st1 f1 fs t = Inr st'"
    by (rule add_element_Inr)
  show ?thesis
  proof (cases fs)
    case Nil
    with assms(1) cs have r: "arraysz f = 1" "\<not> dyn f" and "\<exists>x. array f = Some [x]"
      by (simp_all add: root_inv_def)
    then obtain x where x: "array f = Some [x]" by blast
    from grow_Inr [OF g] r have "f1 = f" by auto
    with store_Inr [OF s] x r Nil show ?thesis
      by (auto simp: root_inv_def split: if_splits)
  next
    case (Cons g' gs)
    from store_Inr [OF s] obtain f' where "c st' = f' # fs"
      by (auto split: if_splits)
    with assms(1) cs Cons show ?thesis by (simp add: root_inv_def)
  qed
qed

lemma returning_Inr: "returning r m = Inr (r', st') \<longleftrightarrow> r' = r \<and> m = Inr st'"
  by (auto simp: returning_def split: sum.splits)

lemma next_alloc_c: "c (snd (next_alloc st)) = c st"
  by (simp add: next_alloc_def split: list.splits)

lemma handle_string_Inr:
  assumes "handle_string st s n = Inr (r, st')"
  shows "(r = 0 \<and> st' = snd (next_alloc st) \<and> \<not> fst (next_alloc st)) \<or>
         (r = 1 \<and> fst (next_alloc st) \<and>
          (\<exists>d. strncpy s n = Some d \<and> add_element (snd (next_alloc st)) (Binary d) = Inr st'))"
  using assms
  by (cases "next_alloc st")
    (auto simp: handle_string_def returning_Inr split: if_splits option.splits)

lemma handle_map_key_Inr:
  assumes "handle_map_key st s n = Inr (r, st')"
  shows "r = 1 \<and> fst (next_alloc st) \<and>
         (\<exists>d st2 f fs. strncpy s n = Some d \<and>
           add_element (snd (next_alloc st)) (Binary d) = Inr st2 \<and> c st2 = f # fs \<and>
           st' = st2\<lparr>c := f\<lparr>key := True\<rparr> # fs\<rparr>)"
  using assms
  by (cases "next_alloc st")
    (auto simp: handle_map_key_def split: if_splits option.splits sum.splits list.splits)

lemma handle_start_Inr:
  assumes "handle_start st = Inr (r, st')"
  shows "r = 1 \<and> (\<exists>p. c st' = \<lparr>count = 0, arraysz = 16, array = p, key = False, dyn = True\<rparr> # c st \<and>
           (p = None \<or> p = Some (replicate 16 None)) \<and>
           live st' = live st + 1 + (if p = None then 0 else 1))"
  using assms
  by (auto simp: handle_start_def enif_alloc_struct_def enif_alloc_def Let_def
      split: prod.splits if_splits dest!: next_alloc_fields)

lemma handle_end_Inr:
  assumes "handle_end st = Inr (r, st')"
  shows "r = 1 \<and> (\<exists>f fs t st1. c st = f # fs \<and> dyn f \<and>
           enif_make_list_from_array (array f) (count f) = Inr t \<and>
           add_element (st\<lparr>c := fs\<rparr>) t = Inr st1 \<and>
           st' = enif_free (free_array (array f) st1))"
  using assms
  by (auto simp: handle_end_def split: list.splits sum.splits if_splits)

lemma free_c: "c (enif_free (free_array p st)) = c st"
  by (simp add: enif_free_def free_array_def split: option.splits)

lemma callbacks_root_inv:
  assumes "root_inv st" and "callbacks e st = Inr (r, st')"
  shows "root_inv st'"
proof (cases e)
  case EvNull
  with assms show ?thesis
    by (auto simp: handle_null_def returning_Inr dest: add_element_root_inv)
next
  case (EvBoolean b)
  with assms show ?thesis
    by (auto simp: handle_boolean_def returning_Inr split: if_splits dest: add_element_root_inv)
next
  case (EvInteger i)
  with assms show ?thesis
    by (auto simp: handle_integer_def returning_Inr dest: add_element_root_inv)
next
  case (EvDouble d)
  with assms show ?thesis
    by (auto simp: handle_double_def returning_Inr dest: add_element_root_inv)
next
  case (EvString s)
  with assms have "handle_string st s (length s) = Inr (r, st')" by simp
  from handle_string_Inr [OF this] show ?thesis
  proof
    assume "r = 0 \<and> st' = snd (next_alloc st) \<and> \<not> fst (next_alloc st)"
    with assms(1) show ?thesis by (simp add: root_inv_def next_alloc_c)
  next
    assume "r = 1 \<and> fst (next_alloc st) \<and>
          (\<exists>d. strncpy s (length s) = Some d \<and> add_element (snd (next_alloc st)) (Binary d) = Inr st')"
    then obtain d where 2: "add_element (snd (next_alloc st)) (Binary d) = Inr st'" by blast
    from assms(1) have "root_inv (snd (next_alloc st))" by (simp add: root_inv_def next_alloc_c)
    from add_element_root_inv [OF this 2] show ?thesis .
  qed
next
  case EvStartMap
  with assms have "handle_start st = Inr (r, st')" by (simp add: handle_start_map_def)
  from handle_start_Inr [OF this] assms(1) show ?thesis by (auto simp: root_inv_def)
next
  case (EvMapKey s)
  with assms have "handle_map_key st s (length s) = Inr (r, st')" by simp
  from handle_map_key_Inr [OF this] obtain d st2 f fs where
    2: "add_element (snd (next_alloc st)) (Binary d) = Inr st2" and 3: "c st2 = f # fs"
    and 4: "st' = st2\<lparr>c := f\<lparr>key := True\<rparr> # fs\<rparr>"
    by blast
  from assms(1) have "root_inv (snd (next_alloc st))" by (simp add: root_inv_def next_alloc_c)
  from add_element_root_inv [OF this 2] have "root_inv st2" .
  with 3 4 show ?thesis by (cases fs) (auto simp: root_inv_def)
next
  case EvEndMap
  with assms have "handle_end st = Inr (r, st')" by (simp add: handle_end_map_def)
  from handle_end_Inr [OF this] obtain f fs t st1 where 1: "c st = f # fs" "dyn f"
    and 2: "add_element (st\<lparr>c := fs\<rparr>) t = Inr st1" and 3: "st' = enif_free (free_array (array f) st1)"
    by blast
  from 1 assms(1) have "root_inv (st\<lparr>c := fs\<rparr>)" by (cases fs) (auto simp: root_inv_def)
  from add_element_root_inv [OF this 2] 3 show ?thesis by (simp add: root_inv_def free_c)
next
  case EvStartArray
  with assms have "handle_start st = Inr (r, st')" by (simp add: handle_start_array_def)
  from handle_start_Inr [OF this] assms(1) show ?thesis by (auto simp: root_inv_def)
next
  case EvEndArray
  with assms have "handle_end st = Inr (r, st')" by (simp add: handle_end_array_def)
  from handle_end_Inr [OF this] obtain f fs t st1 where 1: "c st = f # fs" "dyn f"
    and 2: "add_element (st\<lparr>c := fs\<rparr>) t = Inr st1" and 3: "st' = enif_free (free_array (array f) st1)"
    by blast
  from 1 assms(1) have "root_inv (st\<lparr>c := fs\<rparr>)" by (cases fs) (auto simp: root_inv_def)
  from add_element_root_inv [OF this 2] 3 show ?thesis by (simp add: root_inv_def free_c)
qed

lemma run_callbacks_root_inv:
  "root_inv st \<Longrightarrow> run_callbacks es st = Inr (r, st') \<Longrightarrow> root_inv st'"
proof (induction es arbitrary: st)
  case Nil
  then show ?case by simp
next
  case (Cons e es)
  then show ?case
    by (auto split: sum.splits if_splits dest: callbacks_root_inv)
qed

lemma callbacks_result:
  assumes "callbacks e st = Inr (r, st')"
  shows "r = 0 \<or> r = 1"
  using assms
  by (cases e)
    (auto simp: handle_null_def handle_boolean_def handle_integer_def handle_double_def
      returning_Inr handle_start_map_def handle_start_array_def handle_end_map_def
      handle_end_array_def split: if_splits
      dest: handle_string_Inr handle_map_key_Inr handle_start_Inr handle_end_Inr)

lemma run_callbacks_result:
  "run_callbacks es st = Inr (r, st') \<Longrightarrow> r = 0 \<or> r = 1"
proof (induction es arbitrary: st)
  case Nil
  then show ?case by simp
next
  case (Cons e es)
  then show ?case
    by (auto split: sum.splits if_splits)
qed

lemma root_inv_init: "root_inv (init_state h)"
  by (simp add: root_inv_def init_state_def root_container_def)

lemma add_element_capacity:
  assumes "c st = f # fs" and "add_element st t = Inr st'"
  shows "\<exists>f'. c st' = f' # fs \<and>
     (if arraysz f \<le> count f
      then arraysz f' = 2 * arraysz f \<and> (\<exists>a. array f' = Some a \<and> int (length a) = 2 * arraysz f)
      else arraysz f' = arraysz f)"
proof -
  from assms obtain f1 st1 where g: "grow st f = Inr (f1, st1)" and s: "store st1 f1 fs t = Inr st'"
    by (rule add_element_Inr)
  from store_Inr [OF s] obtain a1 f' where a1: "array f1 = Some a1" and f': "c st' = f' # fs"
    "arraysz f' = arraysz f1" "\<exists>a. array f' = Some a \<and> length a = length a1"
    by (auto split: if_splits)
  from grow_Inr [OF g] show ?thesis
  proof
    assume "count f < arraysz f \<and> f1 = f \<and> st1 = st"
    with f' show ?thesis by auto
  next
    assume h: "arraysz f \<le> count f \<and> dyn f \<and> arraysz f * 2 \<le> INT_MAX \<and>
      (\<exists>p. f1 = f\<lparr>arraysz := arraysz f * 2, array := p\<rparr> \<and>
           enif_realloc st (array f) (arraysz f * 2) = (p, st1))"
    with a1 have r: "enif_realloc st (array f) (arraysz f * 2) = (Some a1, st1)"
      and z: "arraysz f1 = arraysz f * 2"
      by auto
    from enif_realloc_Some [OF r] have "int (length a1) = arraysz f * 2" by simp
    with h z f' show ?thesis by auto
  qed
qed

lemma start_capacity:
  assumes "callbacks EvStartMap st = Inr (r, st') \<or> callbacks EvStartArray st = Inr (r, st')"
  shows "\<exists>f. c st' = f # c st \<and> arraysz f = 16 \<and> count f = 0 \<and> \<not> key f \<and>
     (\<forall>a. array f = Some a \<longrightarrow> length a = 16)"
proof -
  from assms have "handle_start st = Inr (r, st')"
    by (auto simp: handle_start_map_def handle_start_array_def)
  from handle_start_Inr [OF this] show ?thesis by auto
qed

lemma root_during_decode:
  assumes "outcomes h = []" and "small v" and "events_of v = es1 @ es2"
  shows "\<exists>st1. run_callbacks es1 (init_state h) = Inr (1, st1) \<and> root_inv st1"
proof -
  have o: "outcomes (init_state h) = []" using assms(1) by (simp add: init_state_def)
  from run_value(1) [OF assms(2) o add_element_root] assms(3) obtain st' where
    "run_callbacks (es1 @ es2) (init_state h) = Inr (1, st')"
    by simp
  then obtain r st1 where r: "run_callbacks es1 (init_state h) = Inr (r, st1)" "r \<noteq> 0"
    by (rule run_callbacks_split)
  from run_callbacks_result [OF r(1)] r(2) have "r = 1" by simp
  moreover from run_callbacks_root_inv [OF root_inv_init r(1)] have "root_inv st1" .
  ultimately show ?thesis using r by simp
qed

lemma parses_as_parser_for: "parses_as (parser_for v buf) v"
  by (simp add: parser_for_def parses_as_accepting)

lemma add_element_heap:
  assumes "c st = f # fs" and "add_element st t = Inr st'"
  shows "\<exists>f'. c st' = f' # fs \<and> dyn f' = dyn f \<and> array f' \<noteq> None \<and>
     live st' = live st + (if array f = None then 1 else 0)"
proof -
  from assms obtain f1 st1 where g: "grow st f = Inr (f1, st1)" and s: "store st1 f1 fs t = Inr st'"
    by (rule add_element_Inr)
  from store_Inr [OF s] obtain a1 f' where a1: "array f1 = Some a1" and f': "c st' = f' # fs"
    "dyn f' = dyn f1" "array f' \<noteq> None" "live st' = live st1"
    by (auto split: if_splits)
  from grow_Inr [OF g] show ?thesis
  proof
    assume "count f < arraysz f \<and> f1 = f \<and> st1 = st"
    with f' a1 show ?thesis by auto
  next
    assume h: "arraysz f \<le> count f \<and> dyn f \<and> arraysz f * 2 \<le> INT_MAX \<and>
      (\<exists>p. f1 = f\<lparr>arraysz := arraysz f * 2, array := p\<rparr> \<and>
           enif_realloc st (array f) (arraysz f * 2) = (p, st1))"
    with a1 have r: "enif_realloc st (array f) (arraysz f * 2) = (Some a1, st1)"
      and z: "dyn f1 = dyn f"
      by auto
    from enif_realloc_Some [OF r] have "live st1 = live st + (if array f = None then 1 else 0)"
      by simp
    with z f' show ?thesis by auto
  qed
qed

lemma add_element_stack_inv:
  assumes "stack_inv l st" and "add_element st t = Inr st'"
  shows "stack_inv l st'"
proof -
  from assms(1) obtain f fs where cs: "c st = f # fs" by (cases "c st") (auto simp: stack_inv_def)
  from add_element_heap [OF cs assms(2)] obtain f' where f': "c st' = f' # fs" "dyn f' = dyn f"
    "array f' \<noteq> None" "live st' = live st + (if array f = None then 1 else 0)"
    by blast
  show ?thesis
  proof (cases fs)
    case Nil
    with assms(1) cs have "\<not> dyn f" "live st = l" by (simp_all add: stack_inv_def)
    moreover from assms(2) cs Nil \<open>\<not> dyn f\<close> have "array f \<noteq> None"
      by (auto simp: add_element_Cons grow_def store_def slot_read_def slot_write_def
          split: sum.splits if_splits option.splits)
    ultimately show ?thesis using f' Nil by (simp add: stack_inv_def)
  next
    case (Cons g gs)
    with assms(1) cs f' show ?thesis by (auto simp: stack_inv_def)
  qed
qed

lemma stack_inv_next_alloc: "stack_inv l (snd (next_alloc st)) = stack_inv l st"
  by (simp add: stack_inv_def next_alloc_c next_alloc_live_eq)

lemma callbacks_stack_inv:
  assumes "stack_inv l st" and "callbacks e st = Inr (r, st')"
  shows "stack_inv l st'"
proof -
  have scalar: "\<And>t. add_element st t = Inr st' \<Longrightarrow> stack_inv l st'"
    using assms(1) by (rule add_element_stack_inv)
  have start: "handle_start st = Inr (r, st') \<Longrightarrow> stack_inv l st'"
  proof -
    assume "handle_start st = Inr (r, st')"
    from handle_start_Inr [OF this] assms(1) show ?thesis
      by (auto simp: stack_inv_def)
  qed
  have "end": "handle_end st = Inr (r, st') \<Longrightarrow> stack_inv l st'"
  proof -
    assume "handle_end st = Inr (r, st')"
    from handle_end_Inr [OF this] obtain f fs t st1 where 1: "c st = f # fs" "dyn f"
      and 2: "add_element (st\<lparr>c := fs\<rparr>) t = Inr st1" and 3: "st' = enif_free (free_array (array f) st1)"
      by blast
    from 1 assms(1) have ne: "fs \<noteq> []" by (auto simp: stack_inv_def)
    with 1 assms(1) have "stack_inv (l + 1 + (if array f = None then 0 else 1)) (st\<lparr>c := fs\<rparr>)"
      by (auto simp: stack_inv_def)
    from add_element_stack_inv [OF this 2]
    show ?thesis using 3
      by (auto simp: stack_inv_def enif_free_def free_array_def split: option.splits)
  qed
  show ?thesis
  proof (cases e)
    case EvNull
    with assms(2) scalar show ?thesis by (auto simp: handle_null_def returning_Inr)
  next
    case (EvBoolean b)
    with assms(2) scalar show ?thesis
      by (auto simp: handle_boolean_def returning_Inr split: if_splits)
  next
    case (EvInteger i)
    with assms(2) scalar show ?thesis by (auto simp: handle_integer_def returning_Inr)
  next
    case (EvDouble d)
    with assms(2) scalar show ?thesis by (auto simp: handle_double_def returning_Inr)
  next
    case (EvString s)
    with assms(2) have "handle_string st s (length s) = Inr (r, st')" by simp
    from handle_string_Inr [OF this] show ?thesis
    proof
      assume "r = 0 \<and> st' = snd (next_alloc st) \<and> \<not> fst (next_alloc st)"
      with assms(1) show ?thesis by (simp add: stack_inv_next_alloc)
    next
      assume "r = 1 \<and> fst (next_alloc st) \<and>
          (\<exists>d. strncpy s (length s) = Some d \<and> add_element (snd (next_alloc st)) (Binary d) = Inr st')"
      then obtain d where 2: "add_element (snd (next_alloc st)) (Binary d) = Inr st'" by blast
      from assms(1) have "stack_inv l (snd (next_alloc st))" by (simp add: stack_inv_next_alloc)
      from add_element_stack_inv [OF this 2] show ?thesis .
    qed
  next
    case EvStartMap
    with assms(2) start show ?thesis by (simp add: handle_start_map_def)
  next
    case (EvMapKey s)
    with assms(2) have "handle_map_key st s (length s) = Inr (r, st')" by simp
    from handle_map_key_Inr [OF this] obtain d st2 f fs where
      2: "add_element (snd (next_alloc st)) (Binary d) = Inr st2" and 3: "c st2 = f # fs"
      and 4: "st' = st2\<lparr>c := f\<lparr>key := True\<rparr> # fs\<rparr>"
      by blast
    from assms(1) have "stack_inv l (snd (next_alloc st))" by (simp add: stack_inv_next_alloc)
    from add_element_stack_inv [OF this 2] have "stack_inv l st2" .
    with 3 4 show ?thesis by (cases fs) (auto simp: stack_inv_def)
  next
    case EvEndMap
    with assms(2) "end" show ?thesis by (simp add: handle_end_map_def)
  next
    case EvStartArray
    with assms(2) start show ?thesis by (simp add: handle_start_array_def)
  next
    case EvEndArray
    with assms(2) "end" show ?thesis by (simp add: handle_end_array_def)
  qed
qed

lemma run_callbacks_stack_inv:
  "stack_inv l st \<Longrightarrow> run_callbacks es st = Inr (r, st') \<Longrightarrow> stack_inv l st'"
proof (induction es arbitrary: st)
  case Nil
  then show ?case by simp
next
  case (Cons e es)
  then show ?case
    by (auto split: sum.splits if_splits dest: callbacks_stack_inv)
qed

lemma yajl_run_stack_inv:
  assumes "stack_inv l st" and "yajl_run y st = Inr (ys, st')"
  shows "stack_inv l st'"
  using assms
  by (auto simp: yajl_run_def yajl_call_def split: sum.splits if_splits prod.splits
      dest: run_callbacks_stack_inv)

lemma stack_inv_init: "stack_inv (live h) (init_state h)"
  by (simp add: stack_inv_def init_state_def root_container_def)

lemma cleanup_containers_frees:
  "fs \<noteq> [] \<Longrightarrow> \<forall>f \<in> set (butlast fs). dyn f \<Longrightarrow>
   cleanup_containers fs st = Inr (st\<lparr>live := live st - blocks (butlast fs)\<rparr>)"
proof (induction fs st rule: cleanup_containers.induct)
  case (1 st)
  then show ?case by simp
next
  case (2 f st)
  then show ?case by simp
next
  case (3 f g fs st)
  then show ?case
    by (simp add: enif_free_def free_array_def split: option.splits)
qed

lemma strncpy_c_string:
  "strncpy (m @ [0]) n = Some (take n (c_string m) @ replicate (n - length (c_string m)) 0)"
proof (induction m arbitrary: n)
  case Nil
  then show ?case by (cases n) (simp_all add: c_string_def)
next
  case (Cons b m)
  then show ?case
    by (cases n) (simp_all add: c_string_def replicate_Suc [symmetric] del: replicate_Suc)
qed

lemma c_string_buffer:
  "c_string ((take n (c_string m) @ replicate k 0) @ [0]) = take n (c_string m)"
proof -
  have nz: "\<And>x. x \<in> set (take n (c_string m)) \<Longrightarrow> x \<noteq> 0"
    by (auto simp: c_string_def dest!: in_set_takeD dest: set_takeWhileD)
  have z: "takeWhile (\<lambda>b. b \<noteq> 0) (replicate k (0::byte) @ [0]) = []"
    by (cases k) simp_all
  show ?thesis
    unfolding c_string_def [of "(take n (c_string m) @ replicate k 0) @ [0]"]
    using nz z by simp
qed

lemma parse_json_error:
  assumes "handle_ok (Y buf)" and "yajl_run (Y buf) st = Inr (ys, st1)" and "ys \<noteq> yajl_status_ok"
    and "c st1 \<noteq> []" and "\<forall>f \<in> set (butlast (c st1)). dyn f"
  shows "\<exists>st'. parse_json Y st buf =
      Inr (Some (case error_text (Y buf) ys of
                   None \<Rightarrow> cstr ''Unknown YAJL error''
                 | Some m \<Rightarrow> take 255 (c_string m)), st') \<and>
      outcomes st' = outcomes st1 \<and> live st' = live st1 - blocks (butlast (c st1))"
proof (cases "error_text (Y buf) ys")
  case None
  with assms show ?thesis
    by (simp add: parse_json_def cleanup_containers_frees)
next
  case (Some m)
  let ?d = "take 255 (c_string m) @ replicate (255 - length (c_string m)) 0"
  have 1: "strncpy (m @ [0]) (ERR_BUF_SIZE - 1) = Some ?d"
    by (simp add: strncpy_c_string ERR_BUF_SIZE_def)
  have 2: "c_string (?d @ [0]) = take 255 (c_string m)"
    by (rule c_string_buffer)
  have 3: "cleanup_containers (c (st1\<lparr>errmsg := ?d @ [0]\<rparr>)) (st1\<lparr>errmsg := ?d @ [0]\<rparr>) =
      Inr (st1\<lparr>errmsg := ?d @ [0]\<rparr>\<lparr>live := live (st1\<lparr>errmsg := ?d @ [0]\<rparr>) -
        blocks (butlast (c (st1\<lparr>errmsg := ?d @ [0]\<rparr>)))\<rparr>)"
    by (rule cleanup_containers_frees) (use assms in simp_all)
  show ?thesis
    using assms(1-3) Some 1 2 3 by (simp add: parse_json_def)
qed

lemma written_iff: "None \<notin> set (take k a) \<longleftrightarrow> (\<forall>i. i < k \<and> i < length a \<longrightarrow> a ! i \<noteq> None)"
  by (auto simp: in_set_conv_nth)

lemma written_update:
  "None \<notin> set (take k a) \<Longrightarrow> None \<notin> set (take k (a[n := Some v]))"
  using set_update_subset_insert [of "take k a" n "Some v"] by (auto simp: take_update_swap)

lemma written_append:
  "None \<notin> set (take k a) \<Longrightarrow> k < length a \<Longrightarrow> None \<notin> set (take (Suc k) (a[k := Some v]))"
  by (simp add: take_Suc_conv_app_nth)

lemma store_inv:
  assumes "store st f fs t = Inr st'" and "0 \<le> count f" and "key f \<or> count f < arraysz f"
    and "count f \<le> arraysz f" and "key f \<longrightarrow> 1 \<le> count f"
  shows "\<exists>f'. c st' = f' # fs \<and> frame_inv f' \<and> 1 \<le> count f' \<and> array f' \<noteq> None \<and>
    (storage_ok f \<longrightarrow> storage_ok f')"
proof -
  from store_Inr [OF assms(1)] obtain a where a: "array f = Some a"
    and eff: "if key f
      then 1 \<le> count f \<and> count f \<le> int (length a) \<and>
           (\<exists>k. a ! nat (count f - 1) = Some k \<and>
             st' = st\<lparr>c := f\<lparr>array := Some (a[nat (count f - 1) := Some (Tuple2 k t)]), key := False\<rparr> # fs\<rparr>)
      else 0 \<le> count f \<and> count f < int (length a) \<and> count f \<noteq> INT_MAX \<and>
           st' = st\<lparr>c := f\<lparr>array := Some (a[nat (count f) := Some t]), count := count f + 1\<rparr> # fs\<rparr>"
    by blast
  show ?thesis
  proof (cases "key f")
    case True
    with eff obtain k where st': "st' = st\<lparr>c := f\<lparr>array := Some (a[nat (count f - 1) := Some (Tuple2 k t)]), key := False\<rparr> # fs\<rparr>"
      by auto
    have "storage_ok f \<longrightarrow> storage_ok (f\<lparr>array := Some (a[nat (count f - 1) := Some (Tuple2 k t)]), key := False\<rparr>)"
      using a by (auto simp: storage_ok_def written_update)
    with st' True assms show ?thesis by (simp add: frame_inv_def)
  next
    case False
    with eff have lt: "count f < int (length a)"
      and st': "st' = st\<lparr>c := f\<lparr>array := Some (a[nat (count f) := Some t]), count := count f + 1\<rparr> # fs\<rparr>"
      by auto
    have "nat (count f + 1) = Suc (nat (count f))" "nat (count f) < length a"
      using assms(2) lt by simp_all
    then have "storage_ok f \<longrightarrow> storage_ok (f\<lparr>array := Some (a[nat (count f) := Some t]), count := count f + 1\<rparr>)"
      using a by (auto simp: storage_ok_def written_append)
    with st' False assms show ?thesis by (simp add: frame_inv_def)
  qed
qed

lemma grow_inv:
  assumes "grow st f = Inr (f1, st1)" and "frame_inv f" and "array f1 \<noteq> None"
  shows "0 \<le> count f1 \<and> count f1 \<le> arraysz f1 \<and> (key f1 \<longrightarrow> 1 \<le> count f1) \<and>
    (key f1 \<or> count f1 < arraysz f1 \<or> arraysz f1 = 0) \<and> (storage_ok f \<longrightarrow> storage_ok f1)"
proof -
  from assms(2) have fi: "0 \<le> count f" "count f \<le> arraysz f" "key f \<longrightarrow> 1 \<le> count f"
    by (simp_all add: frame_inv_def)
  from grow_Inr [OF assms(1)] show ?thesis
  proof
    assume "count f < arraysz f \<and> f1 = f \<and> st1 = st"
    with fi show ?thesis by simp
  next
    assume h: "arraysz f \<le> count f \<and> dyn f \<and> arraysz f * 2 \<le> INT_MAX \<and>
      (\<exists>p. f1 = f\<lparr>arraysz := arraysz f * 2, array := p\<rparr> \<and>
           enif_realloc st (array f) (arraysz f * 2) = (p, st1))"
    with assms(3) obtain a1 where r: "enif_realloc st (array f) (arraysz f * 2) = (Some a1, st1)"
      and f1: "f1 = f\<lparr>arraysz := arraysz f * 2, array := Some a1\<rparr>"
      by auto
    from h fi have eq: "count f = arraysz f" by simp
    from enif_realloc_Some [OF r] have len: "length a1 = nat (arraysz f * 2)"
      and old: "\<And>a i. array f = Some a \<Longrightarrow> i < length a \<Longrightarrow> i < nat (arraysz f * 2) \<Longrightarrow> a1 ! i = a ! i"
      by auto
    have "storage_ok f \<longrightarrow> storage_ok f1"
    proof
      assume s: "storage_ok f"
      show "storage_ok f1"
      proof (cases "array f")
        case None
        with s have "count f = 0" by (simp add: storage_ok_def)
        with f1 len fi eq show ?thesis by (simp add: storage_ok_def)
      next
        case (Some a)
        with s have la: "int (length a) = arraysz f" and w: "\<forall>i. i < nat (count f) \<and> i < length a \<longrightarrow> a ! i \<noteq> None"
          by (simp_all add: storage_ok_def written_iff)
        have "\<forall>i. i < nat (count f) \<and> i < length a1 \<longrightarrow> a1 ! i \<noteq> None"
        proof (intro allI impI)
          fix i assume i: "i < nat (count f) \<and> i < length a1"
          with la eq have "i < length a" by linarith
          with old [OF Some this] i len w show "a1 ! i \<noteq> None" by simp
        qed
        with f1 len fi show ?thesis by (simp add: storage_ok_def written_iff)
      qed
    qed
    with f1 fi eq show ?thesis by auto
  qed
qed

lemma add_element_inv:
  assumes "c st = f # fs" and "add_element st t = Inr st'" and "frame_inv f"
  shows "\<exists>f'. c st' = f' # fs \<and> frame_inv f' \<and> 1 \<le> count f' \<and> (storage_ok f \<longrightarrow> storage_ok f')"
proof -
  from assms(1,2) obtain f1 st1 where g: "grow st f = Inr (f1, st1)" and s: "store st1 f1 fs t = Inr st'"
    by (rule add_element_Inr)
  from store_Inr [OF s] obtain a1 where a1: "array f1 = Some a1"
    and b: "\<not> key f1 \<longrightarrow> count f1 < int (length a1)"
    by (auto split: if_splits)
  then have "array f1 \<noteq> None" by simp
  from grow_inv [OF g assms(3) this]
  have i: "0 \<le> count f1" "count f1 \<le> arraysz f1" "key f1 \<longrightarrow> 1 \<le> count f1"
    "key f1 \<or> count f1 < arraysz f1 \<or> arraysz f1 = 0" "storage_ok f \<longrightarrow> storage_ok f1"
    by simp_all
  have "key f1 \<or> count f1 < arraysz f1"
  proof (rule ccontr)
    assume n: "\<not> (key f1 \<or> count f1 < arraysz f1)"
    with i have z: "arraysz f1 = 0" "count f1 = 0" by auto
    from grow_Inr [OF g] z a1 have "length a1 = 0"
      by (auto dest!: enif_realloc_Some)
    with b n z show False by simp
  qed
  from store_inv [OF s i(1) this i(2,3)] i(5) show ?thesis by blast
qed

lemma add_element_Nil: "c st = [] \<Longrightarrow> add_element st t = Inr st"
  by (simp add: add_element_def)

lemma add_element_all_inv:
  assumes "\<forall>f \<in> set (c st). frame_inv_with b f" and "add_element st t = Inr st'"
  shows "(\<forall>f \<in> set (c st'). frame_inv_with b f) \<and>
    (\<forall>f fs. c st = f # fs \<longrightarrow> (\<exists>f'. c st' = f' # fs \<and> 1 \<le> count f')) \<and>
    (c st = [] \<longrightarrow> c st' = [])"
proof (cases "c st")
  case Nil
  with assms show ?thesis by (simp add: add_element_Nil)
next
  case (Cons f fs)
  with assms(1) have "frame_inv f" by (simp add: frame_inv_with_def)
  from add_element_inv [OF Cons assms(2) this] obtain f' where
    "c st' = f' # fs" "frame_inv f'" "1 \<le> count f'" "storage_ok f \<longrightarrow> storage_ok f'"
    by blast
  with assms(1) Cons show ?thesis by (auto simp: frame_inv_with_def)
qed

lemma frame_inv_with_key:
  "frame_inv_with b f \<Longrightarrow> 1 \<le> count f \<Longrightarrow> frame_inv_with b (f\<lparr>key := True\<rparr>)"
  by (simp add: frame_inv_with_def frame_inv_def storage_ok_def split: option.splits)

lemma callbacks_inv:
  assumes "\<forall>f \<in> set (c st). frame_inv_with b f" and "callbacks e st = Inr (r, st')"
  shows "\<forall>f \<in> set (c st'). frame_inv_with b f"
proof -
  have scalar: "\<And>t. add_element st t = Inr st' \<Longrightarrow> ?thesis"
    using add_element_all_inv [OF assms(1)] by blast
  have n: "\<forall>f \<in> set (c (snd (next_alloc st))). frame_inv_with b f"
    using assms(1) by (simp add: next_alloc_c)
  have start: "handle_start st = Inr (r, st') \<Longrightarrow> ?thesis"
  proof -
    assume "handle_start st = Inr (r, st')"
    from handle_start_Inr [OF this] assms(1) show ?thesis
      by (auto simp: frame_inv_with_def frame_inv_def storage_ok_def)
  qed
  have "end": "handle_end st = Inr (r, st') \<Longrightarrow> ?thesis"
  proof -
    assume "handle_end st = Inr (r, st')"
    from handle_end_Inr [OF this] obtain f fs t st1 where 1: "c st = f # fs"
      and 2: "add_element (st\<lparr>c := fs\<rparr>) t = Inr st1" and 3: "st' = enif_free (free_array (array f) st1)"
      by blast
    from 1 assms(1) have "\<forall>f \<in> set (c (st\<lparr>c := fs\<rparr>)). frame_inv_with b f" by simp
    from add_element_all_inv [OF this 2] 3 show ?thesis by (simp add: free_c)
  qed
  show ?thesis
  proof (cases e)
    case EvNull
    with assms(2) scalar show ?thesis by (auto simp: handle_null_def returning_Inr)
  next
    case (EvBoolean x)
    with assms(2) scalar show ?thesis
      by (auto simp: handle_boolean_def returning_Inr split: if_splits)
  next
    case (EvInteger i)
    with assms(2) scalar show ?thesis by (auto simp: handle_integer_def returning_Inr)
  next
    case (EvDouble d)
    with assms(2) scalar show ?thesis by (auto simp: handle_double_def returning_Inr)
  next
    case (EvString s)
    with assms(2) have "handle_string st s (length s) = Inr (r, st')" by simp
    from handle_string_Inr [OF this] show ?thesis
    proof
      assume "r = 0 \<and> st' = snd (next_alloc st) \<and> \<not> fst (next_alloc st)"
      with n show ?thesis by simp
    next
      assume "r = 1 \<and> fst (next_alloc st) \<and>
          (\<exists>d. strncpy s (length s) = Some d \<and> add_element (snd (next_alloc st)) (Binary d) = Inr st')"
      then obtain d where 2: "add_element (snd (next_alloc st)) (Binary d) = Inr st'" by blast
      from add_element_all_inv [OF n 2] show ?thesis by blast
    qed
  next
    case EvStartMap
    with assms(2) start show ?thesis by (simp add: handle_start_map_def)
  next
    case (EvMapKey s)
    with assms(2) have "handle_map_key st s (length s) = Inr (r, st')" by simp
    from handle_map_key_Inr [OF this] obtain d st2 f fs where
      2: "add_element (snd (next_alloc st)) (Binary d) = Inr st2" and 3: "c st2 = f # fs"
      and 4: "st' = st2\<lparr>c := f\<lparr>key := True\<rparr> # fs\<rparr>"
      by blast
    from add_element_all_inv [OF n 2] 3 have a: "\<forall>f \<in> set (c st2). frame_inv_with b f"
      and "1 \<le> count f"
      by (cases "c (snd (next_alloc st))"; auto)+
    with 3 4 show ?thesis by (auto intro: frame_inv_with_key)
  next
    case EvEndMap
    with assms(2) "end" show ?thesis by (simp add: handle_end_map_def)
  next
    case EvStartArray
    with assms(2) start show ?thesis by (simp add: handle_start_array_def)
  next
    case EvEndArray
    with assms(2) "end" show ?thesis by (simp add: handle_end_array_def)
  qed
qed

lemma pending_key_cell:
  assumes "frame_inv f" and "storage_ok f" and "key f"
  shows "\<exists>a k. array f = Some a \<and> 0 \<le> count f - 1 \<and> count f - 1 < int (length a) \<and>
     a ! nat (count f - 1) = Some k"
proof -
  from assms(1,3) have fi: "1 \<le> count f" "count f \<le> arraysz f" by (simp_all add: frame_inv_def)
  with assms(2) obtain a where a: "array f = Some a" "int (length a) = arraysz f"
    by (cases "array f") (auto simp: storage_ok_def)
  from fi have "0 \<le> count f - 1" "count f - 1 < count f" by simp_all
  from storage_ok_nth [OF assms(2) a(1) this fi(2)] a fi show ?thesis by auto
qed

lemma stored_split:
  "stored s = takeWhile (\<lambda>b. b \<noteq> 0) s @ replicate (length (dropWhile (\<lambda>b. b \<noteq> 0) s)) 0"
proof -
  have "length s = length (takeWhile (\<lambda>b. b \<noteq> 0) s) + length (dropWhile (\<lambda>b. b \<noteq> 0) s)"
    by (metis length_append takeWhile_dropWhile_id)
  then show ?thesis by (simp add: stored_def)
qed

lemma replicate_same_iff: "replicate (length xs) x = xs \<longleftrightarrow> (\<forall>y \<in> set xs. y = x)"
  by (induction xs) auto

lemma stored_exact_iff: "stored s = s \<longleftrightarrow> (\<forall>b \<in> set (dropWhile (\<lambda>b. b \<noteq> 0) s). b = 0)"
proof -
  define t where "t = takeWhile (\<lambda>b. b \<noteq> 0) s"
  define d where "d = dropWhile (\<lambda>b. b \<noteq> 0) s"
  have s: "s = t @ d" by (simp add: t_def d_def)
  have st: "stored s = t @ replicate (length d) 0" by (simp add: stored_split t_def d_def)
  have "stored s = s \<longleftrightarrow> t @ replicate (length d) 0 = t @ d"
    using s st by simp
  also have "\<dots> \<longleftrightarrow> replicate (length d) 0 = d" by simp
  also have "\<dots> \<longleftrightarrow> (\<forall>y \<in> set d. y = 0)" by (rule replicate_same_iff)
  finally show ?thesis by (simp add: d_def)
qed

lemma stored_no_zero:
  assumes "0 \<notin> set s"
  shows "stored s = s"
proof -
  from assms have "\<forall>x \<in> set s. x \<noteq> 0" by auto
  then have tw: "takeWhile (\<lambda>b. b \<noteq> 0) s = s" by simp
  show ?thesis unfolding stored_def tw by simp
qed

lemma handle_string_stored:
  "handle_string st s (length s) =
     (if fst (next_alloc st) then returning 1 (add_element (snd (next_alloc st)) (Binary (stored s)))
      else Inr (0, snd (next_alloc st)))"
  by (cases "next_alloc st") (simp add: handle_string_def strncpy_stored)

lemma handle_map_key_stored:
  "fst (next_alloc st) \<Longrightarrow>
   handle_map_key st s (length s) =
     (case add_element (snd (next_alloc st)) (Binary (stored s)) of
        Inl e \<Rightarrow> Inl e
      | Inr st2 \<Rightarrow>
          (case c st2 of
             [] \<Rightarrow> Inl NullDeref
           | f # fs \<Rightarrow> Inr (1, st2\<lparr>c := f\<lparr>key := True\<rparr> # fs\<rparr>)))"
  by (cases "next_alloc st") (simp add: handle_map_key_def strncpy_stored)


text \<open>
  The failures that reach the status test of \<^verbatim>\<open>parse_json\<close>: when the run of the parser
  ends with a status other than ok, because the library reports an error or because a
  callback returned 0, \<^verbatim>\<open>decode_1\<close> returns the tuple of the atom \<open>error\<close> and the text
  alone, the text of the library cut to 255 bytes or a fixed text, and
  \<^verbatim>\<open>cleanup_containers\<close> gives back each struct and each array above the dummy container:
  the count of live blocks is back at its value before the call.
\<close>

lemma reported_failure_releases_containers:
  assumes "handle_ok (Y buf)" and "yajl_run (Y buf) (init_state h) = Inr (ys, st1)"
    and "ys \<noteq> yajl_status_ok"
  shows "\<exists>msg fs r. decode_1 Y h [Binary buf] =
        Inr (Ret (Tuple2 (Atom ''error'') (enif_make_string msg)),
             \<lparr>outcomes = outcomes st1, live = live h\<rparr>) \<and>
      msg = (case error_text (Y buf) ys of
               None \<Rightarrow> cstr ''Unknown YAJL error''
             | Some m \<Rightarrow> take 255 (c_string m)) \<and>
      length msg \<le> 255 \<and>
      c st1 = fs @ [r] \<and> live st1 = live h + blocks fs \<and>
      (\<forall>st. cleanup_containers (c st1) st = Inr (st\<lparr>live := live st - blocks fs\<rparr>))"
proof -
  from yajl_run_stack_inv [OF stack_inv_init assms(2)] have si: "stack_inv (live h) st1" .
  then have ne: "c st1 \<noteq> []" and d: "\<forall>f \<in> set (butlast (c st1)). dyn f"
    and l: "live st1 = live h + blocks (butlast (c st1))"
    by (simp_all add: stack_inv_def)
  let ?msg = "case error_text (Y buf) ys of
               None \<Rightarrow> cstr ''Unknown YAJL error''
             | Some m \<Rightarrow> take 255 (c_string m)"
  from parse_json_error [where Y = Y and buf = buf, OF assms ne d] obtain st' where
    p: "parse_json Y (init_state h) buf = Inr (Some ?msg, st')"
    and o: "outcomes st' = outcomes st1" "live st' = live st1 - blocks (butlast (c st1))"
    by blast
  have A: "decode_1 Y h [Binary buf] =
      Inr (Ret (Tuple2 (Atom ''error'') (enif_make_string ?msg)), heap_of st')"
    using p by (simp add: decode_1_def enif_is_binary_def enif_inspect_binary_def)
  have B: "heap_of st' = \<lparr>outcomes = outcomes st1, live = live h\<rparr>"
    using o l by (simp add: heap_of_def)
  have C: "length ?msg \<le> 255"
    by (simp add: cstr_def split: option.splits)
  have E: "\<forall>st. cleanup_containers (c st1) st = Inr (st\<lparr>live := live st - blocks (butlast (c st1))\<rparr>)"
    using ne d by (simp add: cleanup_containers_frees)
  show ?thesis
    using A B C E l ne
    by (intro exI [of _ ?msg] exI [of _ "butlast (c st1)"] exI [of _ "last (c st1)"]) simp
qed

lemma reported_failure_example:
  "decode_1 rejecting empty_heap [Binary [91, 123, 33]] =
     Inr (Ret (Tuple2 (Atom ''error'') (EList [Long 101, Long 114, Long 114])), empty_heap) \<and>
   decode_1 (parser_for (JArray [JString [97]])) tight_heap [Binary [91, 34, 97, 34, 93]] =
     Inr (Ret (Tuple2 (Atom ''error'') (enif_make_string (cstr ''Unknown YAJL error''))), empty_heap)"
proof -
  have 1: "handle_ok (rejecting [91, 123, 33])" by (simp add: rejecting_def)
  have s1: "run_callbacks [EvStartArray] (init_state empty_heap) =
      Inr (1, (init_state empty_heap)\<lparr>live := 2, c := [fresh_container, root_container]\<rparr>)"
    by (simp add: handle_start_array_def handle_start_ok init_state_def empty_heap_def)
  have s2: "run_callbacks [EvStartMap]
        ((init_state empty_heap)\<lparr>live := 2, c := [fresh_container, root_container]\<rparr>) =
      Inr (1, (init_state empty_heap)\<lparr>live := 4,
        c := [fresh_container, fresh_container, root_container]\<rparr>)"
    by (simp add: handle_start_map_def handle_start_ok init_state_def empty_heap_def)
  have "run_callbacks ([EvStartArray] @ [EvStartMap]) (init_state empty_heap) =
      Inr (1, (init_state empty_heap)\<lparr>live := 4,
        c := [fresh_container, fresh_container, root_container]\<rparr>)"
    using s1 s2 by (simp only: run_callbacks_append_ok)
  then have 2: "yajl_run (rejecting [91, 123, 33]) (init_state empty_heap) =
      Inr (yajl_status_error, (init_state empty_heap)\<lparr>live := 4,
        c := [fresh_container, fresh_container, root_container]\<rparr>)"
    by (simp add: yajl_run_def yajl_call_def rejecting_def)
  have 3: "yajl_status_error \<noteq> yajl_status_ok" by simp
  from reported_failure_releases_containers [where Y = rejecting and buf = "[91, 123, 33]", OF 1 2 3]
  have A: "decode_1 rejecting empty_heap [Binary [91, 123, 33]] =
     Inr (Ret (Tuple2 (Atom ''error'') (EList [Long 101, Long 114, Long 114])), empty_heap)"
    by (simp add: rejecting_def c_string_def enif_make_string_def init_state_def empty_heap_def)
  let ?Y = "parser_for (JArray [JString [97]])"
  let ?buf = "[91, 34, 97, 34, 93] :: byte list"
  have 4: "handle_ok (?Y ?buf)" by (simp add: parser_for_def accepting_def)
  have 5: "yajl_run (?Y ?buf) (init_state tight_heap) =
      Inr (yajl_status_client_canceled,
        (init_state tight_heap)\<lparr>outcomes := [], live := 2, c := [fresh_container, root_container]\<rparr>)"
    by (simp add: yajl_run_def yajl_call_def parser_for_def accepting_def handle_start_array_def
        handle_start_def enif_alloc_struct_def enif_alloc_def handle_string_def next_alloc_def
        init_state_def tight_heap_def fresh_container_def)
  have 6: "yajl_status_client_canceled \<noteq> yajl_status_ok" by simp
  from reported_failure_releases_containers [where Y = ?Y and buf = ?buf, OF 4 5 6]
  have B: "decode_1 ?Y tight_heap [Binary ?buf] =
     Inr (Ret (Tuple2 (Atom ''error'') (enif_make_string (cstr ''Unknown YAJL error''))), empty_heap)"
    by (simp add: parser_for_def accepting_def init_state_def tight_heap_def empty_heap_def)
  from A B show ?thesis by simp
qed

lemma decode_1_fault:
  "parse_json Y (init_state h) buf = Inl x \<Longrightarrow> decode_1 Y h [Binary buf] = Inl x"
  by (simp add: decode_1_def enif_is_binary_def enif_inspect_binary_def)

section \<open>The claims\<close>

text \<open>
  Claim C1. An append into the innermost container \<open>f\<close>: when \<open>key f\<close> is set, the cell
  \<open>count f - 1\<close>, which holds the key \<open>k\<close>, holds the pair of \<open>k\<close> and the value
  afterwards, the count is the same and the flag is cleared; otherwise the value is written
  to the new cell \<open>count f\<close> and the count grows by exactly one. In both cases the written
  cells below keep their values and the containers below are untouched. The append returns
  whenever the container satisfies its invariant and has room, or can be grown.
\<close>

theorem add_element_appends:
  assumes "c st = f # fs"
  shows "(\<forall>st'. add_element st t = Inr st' \<longrightarrow>
      (\<exists>f'. c st' = f' # fs \<and> \<not> key f' \<and>
       (if key f
        then count f' = count f \<and>
             (\<exists>k. slot_read (array f) (count f - 1) = Inr k \<and>
                  slot_read (array f') (count f - 1) = Inr (Tuple2 k t)) \<and>
             (\<forall>i v. i < count f - 1 \<and> slot_read (array f) i = Inr v \<longrightarrow>
                    slot_read (array f') i = Inr v)
        else count f' = count f + 1 \<and>
             slot_read (array f') (count f) = Inr t \<and>
             (\<forall>i v. i < count f \<and> slot_read (array f) i = Inr v \<longrightarrow>
                    slot_read (array f') i = Inr v)))) \<and>
    (frame_inv f \<and> storage_ok f \<and> array f \<noteq> None \<and>
     (count f < arraysz f \<and> arraysz f \<le> INT_MAX \<or>
      dyn f \<and> 0 < arraysz f \<and> arraysz f * 2 \<le> INT_MAX \<and> fst (next_alloc st)) \<longrightarrow>
     (\<exists>st'. add_element st t = Inr st'))"
proof (intro conjI allI impI)
  assume "frame_inv f \<and> storage_ok f \<and> array f \<noteq> None \<and>
     (count f < arraysz f \<and> arraysz f \<le> INT_MAX \<or>
      dyn f \<and> 0 < arraysz f \<and> arraysz f * 2 \<le> INT_MAX \<and> fst (next_alloc st))"
  then show "\<exists>st'. add_element st t = Inr st'"
    using add_element_returns [OF assms] by blast
next
  fix st'
  assume a: "add_element st t = Inr st'"
  let ?effect = "\<exists>f'. c st' = f' # fs \<and> \<not> key f' \<and>
       (if key f
        then count f' = count f \<and>
             (\<exists>k. slot_read (array f) (count f - 1) = Inr k \<and>
                  slot_read (array f') (count f - 1) = Inr (Tuple2 k t)) \<and>
             (\<forall>i v. i < count f - 1 \<and> slot_read (array f) i = Inr v \<longrightarrow>
                    slot_read (array f') i = Inr v)
        else count f' = count f + 1 \<and>
             slot_read (array f') (count f) = Inr t \<and>
             (\<forall>i v. i < count f \<and> slot_read (array f) i = Inr v \<longrightarrow>
                    slot_read (array f') i = Inr v))"
  have ?effect
  proof -
      from assms a obtain f1 st1 where g: "grow st f = Inr (f1, st1)" and s: "store st1 f1 fs t = Inr st'"
        by (rule add_element_Inr)
      from grow_keeps [OF g] have k: "count f1 = count f" "key f1 = key f" by simp_all
      from store_Inr [OF s] obtain a1 where a1: "array f1 = Some a1"
        and eff: "if key f1
          then 1 \<le> count f1 \<and> count f1 \<le> int (length a1) \<and>
               (\<exists>k. a1 ! nat (count f1 - 1) = Some k \<and>
                 st' = st1\<lparr>c := f1\<lparr>array := Some (a1[nat (count f1 - 1) := Some (Tuple2 k t)]), key := False\<rparr> # fs\<rparr>)
          else 0 \<le> count f1 \<and> count f1 < int (length a1) \<and> count f1 \<noteq> INT_MAX \<and>
               st' = st1\<lparr>c := f1\<lparr>array := Some (a1[nat (count f1) := Some t]), count := count f1 + 1\<rparr> # fs\<rparr>"
        by blast
      have old: "\<And>i v. slot_read (array f) i = Inr v \<Longrightarrow> i < int (length a1) \<Longrightarrow> a1 ! nat i = Some v"
        using grow_slots [OF g a1] by blast
      show ?thesis
      proof (cases "key f")
        case True
        with eff k obtain k0 where b: "1 \<le> count f" "count f \<le> int (length a1)"
          and k0: "a1 ! nat (count f - 1) = Some k0"
          and st': "st' = st1\<lparr>c := f1\<lparr>array := Some (a1[nat (count f - 1) := Some (Tuple2 k0 t)]), key := False\<rparr> # fs\<rparr>"
          by auto
        have "slot_read (array f) (count f - 1) = Inr k0"
        proof -
          from grow_Inr [OF g] show ?thesis
          proof
            assume "count f < arraysz f \<and> f1 = f \<and> st1 = st"
            with a1 k0 b show ?thesis by (simp add: slot_read_Inr)
          next
            assume h: "arraysz f \<le> count f \<and> dyn f \<and> arraysz f * 2 \<le> INT_MAX \<and>
              (\<exists>p. f1 = f\<lparr>arraysz := arraysz f * 2, array := p\<rparr> \<and>
                   enif_realloc st (array f) (arraysz f * 2) = (p, st1))"
            then have r: "enif_realloc st (array f) (arraysz f * 2) = (Some a1, st1)"
              using a1 by auto
            show ?thesis
            proof (cases "array f")
              case None
              with r have "a1 = replicate (nat (arraysz f * 2)) None"
                by (auto simp: enif_realloc_def Let_def split: prod.splits if_splits)
              moreover from b have "nat (count f - 1) < length a1" by linarith
              ultimately have "a1 ! nat (count f - 1) = None" by (metis length_replicate nth_replicate)
              with k0 show ?thesis by simp
            next
              case (Some a)
              with r have e: "a1 = take (nat (arraysz f * 2)) a @ replicate (nat (arraysz f * 2) - length a) None"
                by (auto simp: enif_realloc_def Let_def split: prod.splits if_splits)
              have "nat (count f - 1) < length a"
              proof (rule ccontr)
                assume "\<not> nat (count f - 1) < length a"
                with e k0 b show False by (auto simp: nth_append split: if_splits)
              qed
              with e k0 b Some show ?thesis
                by (auto simp: slot_read_Inr nth_append split: if_splits)
            qed
          qed
        qed
        with True st' b old k show ?thesis
          by (auto simp: slot_read_Inr)
      next
        case False
        with eff k have b: "0 \<le> count f" "count f < int (length a1)"
          and st': "st' = st1\<lparr>c := f1\<lparr>array := Some (a1[nat (count f) := Some t]), count := count f + 1\<rparr> # fs\<rparr>"
          by auto
        with False k old show ?thesis
          by (auto simp: slot_read_Inr)
      qed
  qed
  then show ?effect .
qed

theorem add_element_appends_witness:
  "c ex_state = [ex_frame, root_container] \<and>
   (\<exists>st' f'. add_element ex_state (Long 1) = Inr st' \<and> c st' = [f', root_container] \<and>
      \<not> key f' \<and> count f' = 1 \<and>
      slot_read (array f') 0 = Inr (Tuple2 (Binary [107]) (Long 1)))"
proof -
  have h: "c ex_state = ex_frame # [root_container]"
    by (simp add: ex_state_def)
  have p: "frame_inv ex_frame \<and> storage_ok ex_frame \<and> array ex_frame \<noteq> None \<and>
     (count ex_frame < arraysz ex_frame \<and> arraysz ex_frame \<le> INT_MAX \<or>
      dyn ex_frame \<and> 0 < arraysz ex_frame \<and> arraysz ex_frame * 2 \<le> INT_MAX \<and>
      fst (next_alloc ex_state))"
    by (simp add: frame_inv_def storage_ok_def ex_frame_def INT_MAX_def)
  have r: "slot_read (array ex_frame) (count ex_frame - 1) = Inr (Binary [107])"
    by (simp add: slot_read_def ex_frame_def)
  have k: "key ex_frame" "count ex_frame = 1"
    by (simp_all add: ex_frame_def)
  from add_element_appends [OF h, of "Long 1"] p obtain st' where
    a: "add_element ex_state (Long 1) = Inr st'"
    by blast
  with add_element_appends [OF h, of "Long 1"] k r obtain f' where
    "c st' = f' # [root_container]" "\<not> key f'" "count f' = 1"
    "slot_read (array f') 0 = Inr (Tuple2 (Binary [107]) (Long 1))"
    by auto
  with a h show ?thesis by auto
qed

text \<open>
  Claim C2. A document that the parser accepts decodes to the term of its tree: an object
  to the list of its key/value pairs, one entry per member and in the order of the members,
  an array to the list of its elements in their order. So an object with the same key at
  the positions \<open>i < j\<close> has both entries, at \<open>i\<close> and at \<open>j\<close>, each with its own value.
\<close>

theorem object_entries_in_document_order:
  assumes "outcomes h = []" and "parses_as (Y buf) v" and "small v"
  shows "decode_1 Y h [Binary buf] = Inr (Ret (Tuple2 (Atom ''ok'') (erl_of v)), h) \<and>
    (\<forall>kvs. erl_of (JObject kvs) =
        EList (map (\<lambda>p. Tuple2 (Binary (stored (fst p))) (erl_of (snd p))) kvs)) \<and>
    (\<forall>xs. erl_of (JArray xs) = EList (map erl_of xs)) \<and>
    (\<forall>kvs i j. v = JObject kvs \<and> i < j \<and> j < length kvs \<and> fst (kvs ! i) = fst (kvs ! j) \<longrightarrow>
       (\<exists>ts. decode_1 Y h [Binary buf] = Inr (Ret (Tuple2 (Atom ''ok'') (EList ts)), h) \<and>
          length ts = length kvs \<and>
          ts ! i = Tuple2 (Binary (stored (fst (kvs ! i)))) (erl_of (snd (kvs ! i))) \<and>
          ts ! j = Tuple2 (Binary (stored (fst (kvs ! i)))) (erl_of (snd (kvs ! j)))))"
proof -
  have d: "decode_1 Y h [Binary buf] = Inr (Ret (Tuple2 (Atom ''ok'') (erl_of v)), h)"
    using assms by (rule decode_value)
  have m: "\<And>kvs. erl_of (JObject kvs) =
        EList (map (\<lambda>p. Tuple2 (Binary (stored (fst p))) (erl_of (snd p))) kvs)"
    by (simp add: erl_of_members_map)
  have a: "\<And>xs. erl_of (JArray xs) = EList (map erl_of xs)"
    by (simp add: erl_of_elements_map)
  show ?thesis
    using d m a by (auto simp del: erl_of.simps)
qed

theorem object_entries_in_document_order_witness:
  "decode_1 (parser_for dup_doc) empty_heap [Binary []] =
     Inr (Ret (Tuple2 (Atom ''ok'')
       (EList [Tuple2 (Binary [107]) (Long 1), Tuple2 (Binary [107]) (Long 2)])), empty_heap)"
proof -
  have 1: "outcomes empty_heap = []" by (simp add: empty_heap_def)
  have 2: "parses_as (parser_for dup_doc []) dup_doc" by (rule parses_as_parser_for)
  have 3: "small dup_doc" by (simp add: dup_doc_def)
  have 4: "erl_of dup_doc = EList [Tuple2 (Binary [107]) (Long 1), Tuple2 (Binary [107]) (Long 2)]"
    by (simp add: dup_doc_def stored_def)
  from object_entries_in_document_order [where Y = "parser_for dup_doc" and buf = "[]", OF 1 2 3] 4
  show ?thesis by simp
qed

text \<open>
  Claim C3. A container pushed by a start-map or start-array callback has capacity exactly
  16, no element, and, when its array was obtained, 16 cells. An append that finds the count
  at the capacity doubles the capacity exactly, and the array then has that many cells; any
  other append leaves the capacity alone. The dummy container of \<^verbatim>\<open>decode_1\<close> starts with
  capacity 1, and at every moment of the decode of an accepted document it is still the
  last container, with capacity 1 and its one cell.
\<close>

theorem capacity_policy:
  "(\<forall>st r st'. callbacks EvStartMap st = Inr (r, st') \<or> callbacks EvStartArray st = Inr (r, st') \<longrightarrow>
      (\<exists>f. c st' = f # c st \<and> arraysz f = 16 \<and> count f = 0 \<and> \<not> key f \<and>
           (\<forall>a. array f = Some a \<longrightarrow> length a = 16))) \<and>
   (\<forall>st f fs t st'. c st = f # fs \<and> add_element st t = Inr st' \<longrightarrow>
      (\<exists>f'. c st' = f' # fs \<and>
         (if arraysz f \<le> count f
          then arraysz f' = 2 * arraysz f \<and>
               (\<exists>a. array f' = Some a \<and> int (length a) = 2 * arraysz f)
          else arraysz f' = arraysz f))) \<and>
   c (init_state h) = [root_container] \<and> arraysz root_container = 1 \<and>
   (\<forall>v es1 es2. outcomes h = [] \<and> small v \<and> events_of v = es1 @ es2 \<longrightarrow>
      (\<exists>st1. run_callbacks es1 (init_state h) = Inr (1, st1) \<and> root_inv st1))"
proof (intro conjI allI impI)
  fix st r st'
  assume "callbacks EvStartMap st = Inr (r, st') \<or> callbacks EvStartArray st = Inr (r, st')"
  then show "\<exists>f. c st' = f # c st \<and> arraysz f = 16 \<and> count f = 0 \<and> \<not> key f \<and>
           (\<forall>a. array f = Some a \<longrightarrow> length a = 16)"
    by (rule start_capacity)
next
  fix st f fs t st'
  assume "c st = f # fs \<and> add_element st t = Inr st'"
  then show "\<exists>f'. c st' = f' # fs \<and>
         (if arraysz f \<le> count f
          then arraysz f' = 2 * arraysz f \<and>
               (\<exists>a. array f' = Some a \<and> int (length a) = 2 * arraysz f)
          else arraysz f' = arraysz f)"
    using add_element_capacity by blast
next
  show "c (init_state h) = [root_container]" by (simp add: init_state_def)
next
  show "arraysz root_container = 1" by (simp add: root_container_def)
next
  fix v es1 es2
  assume "outcomes h = [] \<and> small v \<and> events_of v = es1 @ es2"
  then show "\<exists>st1. run_callbacks es1 (init_state h) = Inr (1, st1) \<and> root_inv st1"
    using root_during_decode by blast
qed

theorem capacity_policy_witness:
  "(\<exists>st' f. callbacks EvStartArray (init_state empty_heap) = Inr (1, st') \<and>
       c st' = [f, root_container] \<and> arraysz f = 16 \<and> count f = 0 \<and> array f = Some (replicate 16 None)) \<and>
   (\<exists>st' f'. add_element full_state (Long 1) = Inr st' \<and> c st' = [f', root_container] \<and>
       arraysz f' = 32 \<and> (\<exists>a. array f' = Some a \<and> length a = 32)) \<and>
   (\<exists>st1. run_callbacks [EvStartArray, EvNull] (init_state empty_heap) = Inr (1, st1) \<and>
       arraysz (last (c st1)) = 1)"
proof -
  have s: "callbacks EvStartArray (init_state empty_heap) =
      Inr (1, (init_state empty_heap)\<lparr>live := 2, c := [fresh_container, root_container]\<rparr>)"
    by (simp add: handle_start_array_def handle_start_ok init_state_def empty_heap_def)
  have a: "\<exists>st'. add_element full_state (Long 1) = Inr st'"
    by (simp add: add_element_def grow_def store_def slot_write_def enif_realloc_def
        next_alloc_def full_state_def full_frame_def INT_MAX_def INT_MIN_def)
  have cf: "c full_state = full_frame # [root_container]" "arraysz full_frame \<le> count full_frame"
    "arraysz full_frame = 16"
    by (simp_all add: full_state_def full_frame_def)
  have d: "outcomes empty_heap = [] \<and> small (JArray [JNull]) \<and>
      events_of (JArray [JNull]) = [EvStartArray, EvNull] @ [EvEndArray]"
    by (simp add: empty_heap_def)
  note A = capacity_policy [of empty_heap, THEN conjunct1, rule_format]
  note B = capacity_policy [of empty_heap, THEN conjunct2, THEN conjunct1, rule_format]
  note C = capacity_policy [of empty_heap, THEN conjunct2, THEN conjunct2, THEN conjunct2,
      THEN conjunct2, rule_format]
  from A [of "init_state empty_heap" 1 "(init_state empty_heap)\<lparr>live := 2, c := [fresh_container, root_container]\<rparr>"] s
  have 1: "\<exists>st' f. callbacks EvStartArray (init_state empty_heap) = Inr (1, st') \<and>
       c st' = [f, root_container] \<and> arraysz f = 16 \<and> count f = 0 \<and> array f = Some (replicate 16 None)"
    by (simp add: fresh_container_def init_state_def)
  from a obtain st' where a': "add_element full_state (Long 1) = Inr st'" by blast
  from B [of full_state full_frame "[root_container]" "Long 1" st'] cf a'
  obtain f' where "c st' = f' # [root_container]" "arraysz f' = 2 * arraysz full_frame"
    "\<exists>a. array f' = Some a \<and> int (length a) = 2 * arraysz full_frame"
    by auto
  with a' cf have 2: "\<exists>st' f'. add_element full_state (Long 1) = Inr st' \<and> c st' = [f', root_container] \<and>
       arraysz f' = 32 \<and> (\<exists>a. array f' = Some a \<and> length a = 32)"
    by auto
  from C [of "JArray [JNull]" "[EvStartArray, EvNull]" "[EvEndArray]"] d
  obtain st1 where "run_callbacks [EvStartArray, EvNull] (init_state empty_heap) = Inr (1, st1)"
    "root_inv st1"
    by blast
  then have 3: "\<exists>st1. run_callbacks [EvStartArray, EvNull] (init_state empty_heap) = Inr (1, st1) \<and>
       arraysz (last (c st1)) = 1"
    by (auto simp: root_inv_def)
  from 1 2 3 show ?thesis by blast
qed

text \<open>
  Claim C4, on the program. A decode fails inside the builder when an allocation of the
  builder is refused, and before the first callback when \<^verbatim>\<open>yajl_alloc\<close> returns no handle.
  For the documents \<^verbatim>\<open>[[]]\<close>, \<^verbatim>\<open>{"k":null}\<close> and an array of 17 elements, with the third
  request of the builder refused, and for a missing handle, \<^verbatim>\<open>parse_json\<close> does not come
  to its status test: \<^verbatim>\<open>handle_start\<close>, \<^verbatim>\<open>handle_map_key\<close> and \<^verbatim>\<open>add_element\<close> go on with
  the pointer they did not get, and the missing handle is passed on to the library. The run
  faults with its containers still allocated; no container is released and no error is
  returned, and \<^verbatim>\<open>decode_1\<close> has nothing but the fault to pass on.
\<close>

theorem unreported_failure_faults:
  "parse_json (parser_for (JArray [JArray []])) (init_state tight_heap) [91, 91, 93, 93] = Inl NullDeref \<and>
   parse_json (parser_for (JObject [([107], JNull)])) (init_state tight_heap)
     [123, 34, 107, 34, 58, 110, 117, 108, 108, 125] = Inl UninitRead \<and>
   parse_json (parser_for seventeen) (init_state tight_heap) [] = Inl NullDeref \<and>
   parse_json no_handle (init_state empty_heap) [110, 117, 108, 108] = Inl NullDeref"
  by (simp add: parse_json_def yajl_run_def yajl_call_def parser_for_def accepting_def no_handle_def
      seventeen_def
      handle_start_array_def handle_start_map_def handle_start_def handle_map_key_def
      handle_null_def returning_def
      enif_alloc_struct_def enif_alloc_def enif_realloc_def next_alloc_def
      add_element_def grow_def store_def slot_write_def
      init_state_def tight_heap_def empty_heap_def INT_MAX_def INT_MIN_def)




text \<open>
  Claim C6, on the program. With the allocator refusing the next request,
  \<^verbatim>\<open>handle_string\<close> returns 0, but \<^verbatim>\<open>handle_map_key\<close> goes on with the binary it did not
  get, \<^verbatim>\<open>handle_start\<close> writes through the struct pointer it did not get, and
  \<^verbatim>\<open>add_element\<close> writes through the array pointer that \<^verbatim>\<open>enif_realloc\<close> did not return.
\<close>

theorem allocation_failure_goes_unnoticed:
  "callbacks (EvString [97]) starved_state = Inr (0, open_state) \<and>
   callbacks (EvMapKey [97]) starved_state = Inl UninitRead \<and>
   callbacks EvStartArray starved_state = Inl NullDeref \<and>
   callbacks EvStartMap starved_state = Inl NullDeref \<and>
   callbacks EvNull (full_state\<lparr>outcomes := [False]\<rparr>) = Inl NullDeref"
  by (simp add: handle_string_def handle_map_key_def handle_start_array_def handle_start_map_def
      handle_start_def handle_null_def returning_def enif_alloc_struct_def next_alloc_def
      add_element_def grow_def store_def slot_write_def enif_realloc_def
      starved_state_def open_state_def full_state_def full_frame_def INT_MAX_def INT_MIN_def)

text \<open>
  Claim C7, as the program has it. The documents \<^verbatim>\<open>[]\<close> and \<^verbatim>\<open>{}\<close> decode to the same
  term, the empty list: the decoded results of the two container kinds are not told apart
  by their constructor.
\<close>

theorem empty_array_and_object_coincide:
  "decode_1 (parser_for (JArray [])) empty_heap [Binary [91, 93]] =
     Inr (Ret (Tuple2 (Atom ''ok'') (EList [])), empty_heap) \<and>
   decode_1 (parser_for (JObject [])) empty_heap [Binary [123, 125]] =
     Inr (Ret (Tuple2 (Atom ''ok'') (EList [])), empty_heap)"
proof -
  have o: "outcomes empty_heap = []" by (simp add: empty_heap_def)
  have "decode_1 (parser_for (JArray [])) empty_heap [Binary [91, 93]] =
      Inr (Ret (Tuple2 (Atom ''ok'') (erl_of (JArray []))), empty_heap)"
    by (rule decode_value [OF o parses_as_parser_for]) simp
  moreover have "decode_1 (parser_for (JObject [])) empty_heap [Binary [123, 125]] =
      Inr (Ret (Tuple2 (Atom ''ok'') (erl_of (JObject []))), empty_heap)"
    by (rule decode_value [OF o parses_as_parser_for]) simp
  ultimately show ?thesis by simp
qed

text \<open>
  Claim C7, amended. For every accepted document a closed array is delivered as the list of
  the terms of its elements and a closed object as the list of the 2-tuples of its members,
  both in document order and both with the list constructor: the end-array and the end-map
  callback are the same operation.
\<close>

theorem containers_decode_to_lists:
  assumes "outcomes h = []" and "parses_as (Y buf) v" and "small v"
  shows "(\<forall>xs. v = JArray xs \<longrightarrow>
       decode_1 Y h [Binary buf] = Inr (Ret (Tuple2 (Atom ''ok'') (EList (map erl_of xs))), h)) \<and>
    (\<forall>kvs. v = JObject kvs \<longrightarrow>
       decode_1 Y h [Binary buf] =
         Inr (Ret (Tuple2 (Atom ''ok'')
           (EList (map (\<lambda>p. Tuple2 (Binary (stored (fst p))) (erl_of (snd p))) kvs))), h)) \<and>
    (\<forall>st. callbacks EvEndArray st = callbacks EvEndMap st)"
proof (intro conjI allI impI)
  fix xs
  assume "v = JArray xs"
  with decode_value [where Y = Y and buf = buf, OF assms]
  show "decode_1 Y h [Binary buf] = Inr (Ret (Tuple2 (Atom ''ok'') (EList (map erl_of xs))), h)"
    by (simp add: erl_of_elements_map)
next
  fix kvs
  assume "v = JObject kvs"
  with decode_value [where Y = Y and buf = buf, OF assms]
  show "decode_1 Y h [Binary buf] =
         Inr (Ret (Tuple2 (Atom ''ok'')
           (EList (map (\<lambda>p. Tuple2 (Binary (stored (fst p))) (erl_of (snd p))) kvs))), h)"
    by (simp add: erl_of_members_map)
next
  fix st
  show "callbacks EvEndArray st = callbacks EvEndMap st"
    by (simp add: handle_end_array_def handle_end_map_def)
qed

text \<open>The documents \<^verbatim>\<open>[null]\<close> and \<^verbatim>\<open>{"k":null}\<close>.\<close>

theorem containers_decode_to_lists_witness:
  "decode_1 (parser_for (JArray [JNull])) empty_heap [Binary []] =
     Inr (Ret (Tuple2 (Atom ''ok'') (EList [Atom ''undefined''])), empty_heap) \<and>
   decode_1 (parser_for (JObject [([107], JNull)])) empty_heap [Binary []] =
     Inr (Ret (Tuple2 (Atom ''ok'') (EList [Tuple2 (Binary [107]) (Atom ''undefined'')])), empty_heap)"
proof -
  have o: "outcomes empty_heap = []" by (simp add: empty_heap_def)
  have s1: "small (JArray [JNull])" and s2: "small (JObject [([107], JNull)])" by simp_all
  from containers_decode_to_lists [where Y = "parser_for (JArray [JNull])" and buf = "[]",
      OF o parses_as_parser_for s1, THEN conjunct1,
      rule_format, of "[JNull]"]
  have 1: "decode_1 (parser_for (JArray [JNull])) empty_heap [Binary []] =
     Inr (Ret (Tuple2 (Atom ''ok'') (EList [Atom ''undefined''])), empty_heap)"
    by simp
  from containers_decode_to_lists [where Y = "parser_for (JObject [([107], JNull)])" and buf = "[]",
      OF o parses_as_parser_for s2, THEN conjunct2,
      THEN conjunct1, rule_format, of "[([107], JNull)]"]
  have 2: "decode_1 (parser_for (JObject [([107], JNull)])) empty_heap [Binary []] =
     Inr (Ret (Tuple2 (Atom ''ok'') (EList [Tuple2 (Binary [107]) (Atom ''undefined'')])), empty_heap)"
    by (simp add: stored_def)
  from 1 2 show ?thesis by simp
qed

text \<open>
  Claim C8, as the program has it. The payload \<^verbatim>\<open>a\<close>, zero byte, of declared length 2,
  has an embedded zero byte before its declared length, and the binary stored for it is an
  exact copy of the payload.
\<close>

theorem zero_byte_payload_copied_exactly:
  "callbacks (EvString [97, 0]) open_state =
     Inr (1, open_state\<lparr>c := [fresh_container\<lparr>array := Some ((replicate 16 None)[0 := Some (Binary [97, 0])]),
       count := 1\<rparr>, root_container]\<rparr>)"
  by (simp add: handle_string_def next_alloc_def add_element_def grow_def store_def
      slot_write_def returning_def open_state_def fresh_container_def INT_MAX_def)

text \<open>
  Claim C8, amended. The binary stored for a string or map-key payload has the declared
  length; it holds the payload's bytes before the first zero byte, and zero bytes from
  there on. It is an exact copy of the payload exactly when every byte from the first zero
  byte on is zero, in particular when the payload has no zero byte.
\<close>

theorem payload_copy_stops_at_zero:
  "(\<forall>st. handle_string st s (length s) =
      (if fst (next_alloc st)
       then returning 1 (add_element (snd (next_alloc st)) (Binary (stored s)))
       else Inr (0, snd (next_alloc st)))) \<and>
   (\<forall>st. fst (next_alloc st) \<longrightarrow>
      handle_map_key st s (length s) =
        (case add_element (snd (next_alloc st)) (Binary (stored s)) of
           Inl e \<Rightarrow> Inl e
         | Inr st2 \<Rightarrow>
             (case c st2 of
                [] \<Rightarrow> Inl NullDeref
              | f # fs \<Rightarrow> Inr (1, st2\<lparr>c := f\<lparr>key := True\<rparr> # fs\<rparr>)))) \<and>
   length (stored s) = length s \<and>
   stored s = takeWhile (\<lambda>b. b \<noteq> 0) s @ replicate (length (dropWhile (\<lambda>b. b \<noteq> 0) s)) 0 \<and>
   (stored s = s \<longleftrightarrow> (\<forall>b \<in> set (dropWhile (\<lambda>b. b \<noteq> 0) s). b = 0)) \<and>
   (0 \<notin> set s \<longrightarrow> stored s = s)"
proof (intro conjI allI impI)
  fix st
  show "handle_string st s (length s) =
      (if fst (next_alloc st)
       then returning 1 (add_element (snd (next_alloc st)) (Binary (stored s)))
       else Inr (0, snd (next_alloc st)))"
    by (rule handle_string_stored)
next
  fix st
  assume "fst (next_alloc st)"
  then show "handle_map_key st s (length s) =
        (case add_element (snd (next_alloc st)) (Binary (stored s)) of
           Inl e \<Rightarrow> Inl e
         | Inr st2 \<Rightarrow>
             (case c st2 of
                [] \<Rightarrow> Inl NullDeref
              | f # fs \<Rightarrow> Inr (1, st2\<lparr>c := f\<lparr>key := True\<rparr> # fs\<rparr>)))"
    by (rule handle_map_key_stored)
next
  show "length (stored s) = length s" by (rule length_stored)
next
  show "stored s = takeWhile (\<lambda>b. b \<noteq> 0) s @ replicate (length (dropWhile (\<lambda>b. b \<noteq> 0) s)) 0"
    by (rule stored_split)
next
  show "stored s = s \<longleftrightarrow> (\<forall>b \<in> set (dropWhile (\<lambda>b. b \<noteq> 0) s). b = 0)"
    by (rule stored_exact_iff)
next
  assume "0 \<notin> set s"
  then show "stored s = s" by (rule stored_no_zero)
qed

theorem payload_copy_stops_at_zero_witness:
  "stored [97, 0, 98] = [97, 0, 0] \<and> stored [97, 98] = [97, 98] \<and>
   callbacks (EvMapKey [97, 0, 98]) open_state =
     Inr (1, open_state\<lparr>c := [fresh_container\<lparr>array := Some ((replicate 16 None)[0 := Some (Binary [97, 0, 0])]),
       count := 1, key := True\<rparr>, root_container]\<rparr>)"
proof -
  note t = payload_copy_stops_at_zero [of "[97, 0, 98]"]
  note u = payload_copy_stops_at_zero [of "[97, 98]"]
  have n: "fst (next_alloc open_state)" "snd (next_alloc open_state) = open_state"
    by (simp_all add: next_alloc_def open_state_def)
  have 1: "stored [97, 0, 98] = [97, 0, 0]"
    using t [THEN conjunct2, THEN conjunct2, THEN conjunct2, THEN conjunct1] by simp
  have 2: "stored [97, 98] = [97, 98]"
    using u [THEN conjunct2, THEN conjunct2, THEN conjunct2, THEN conjunct2, THEN conjunct2] by simp
  have "handle_map_key open_state [97, 0, 98] (length [97, 0, 98 :: byte]) =
      (case add_element open_state (Binary [97, 0, 0]) of
           Inl e \<Rightarrow> Inl e
         | Inr st2 \<Rightarrow>
             (case c st2 of
                [] \<Rightarrow> Inl NullDeref
              | f # fs \<Rightarrow> Inr (1, st2\<lparr>c := f\<lparr>key := True\<rparr> # fs\<rparr>)))"
    using t [THEN conjunct2, THEN conjunct1, rule_format, of open_state] n 1 by simp
  then have 3: "callbacks (EvMapKey [97, 0, 98]) open_state =
     Inr (1, open_state\<lparr>c := [fresh_container\<lparr>array := Some ((replicate 16 None)[0 := Some (Binary [97, 0, 0])]),
       count := 1, key := True\<rparr>, root_container]\<rparr>)"
    by (simp add: add_element_def grow_def store_def slot_write_def open_state_def
        fresh_container_def INT_MAX_def)
  from 1 2 3 show ?thesis by simp
qed

text \<open>
  Claim C9. A call of \<^verbatim>\<open>decode_1\<close> whose arguments are not exactly one binary returns
  badarg whatever the parser library would do with any buffer, with the allocator as it
  was: no request was made and no block is held.
\<close>

theorem bad_argument_is_badarg:
  assumes "length argv \<noteq> 1 \<or> (\<forall>b. hd argv \<noteq> Binary b)"
  shows "decode_1 Y h argv = Inr (Badarg, h)"
proof -
  from assms have "int (length argv) \<noteq> 1 \<or> \<not> enif_is_binary (hd argv)"
    by (auto simp: enif_is_binary_def split: eterm.splits)
  then show ?thesis by (auto simp: decode_1_def)
qed

theorem bad_argument_is_badarg_witness:
  "decode_1 (parser_for JNull) empty_heap [] = Inr (Badarg, empty_heap) \<and>
   decode_1 (parser_for JNull) empty_heap [Long 3] = Inr (Badarg, empty_heap) \<and>
   decode_1 (parser_for JNull) empty_heap [Binary [], Binary []] = Inr (Badarg, empty_heap)"
proof -
  have 1: "length ([] :: eterm list) \<noteq> 1 \<or> (\<forall>b. hd [] \<noteq> Binary b)" by simp
  have 2: "length [Long 3] \<noteq> 1 \<or> (\<forall>b. hd [Long 3] \<noteq> Binary b)" by simp
  have 3: "length [Binary [], Binary []] \<noteq> 1 \<or> (\<forall>b. hd [Binary [], Binary []] \<noteq> Binary b)" by simp
  from bad_argument_is_badarg [OF 1] bad_argument_is_badarg [OF 2] bad_argument_is_badarg [OF 3]
  show ?thesis by simp
qed

text \<open>
  Claim C10. Every callback that returns keeps, for every container of the list, the
  invariant \<open>0 \<le> count \<le> arraysz\<close> and \<open>key\<close> implies \<open>1 \<le> count\<close>. When the elements
  arrays match the fields before the callback they match them afterwards, and then the cell
  \<open>count - 1\<close> that the fusion rewrites for a pending key is a written cell of the array.
\<close>

theorem callbacks_keep_frame_invariant:
  assumes "\<forall>f \<in> set (c st). frame_inv f" and "callbacks e st = Inr (r, st')"
  shows "(\<forall>f \<in> set (c st'). frame_inv f) \<and>
    ((\<forall>f \<in> set (c st). storage_ok f) \<longrightarrow>
     (\<forall>f \<in> set (c st'). storage_ok f \<and>
        (key f \<longrightarrow> (\<exists>a k. array f = Some a \<and> 0 \<le> count f - 1 \<and>
           count f - 1 < int (length a) \<and> a ! nat (count f - 1) = Some k))))"
proof (intro conjI impI ballI)
  fix f assume "f \<in> set (c st')"
  moreover from assms(1) have "\<forall>f \<in> set (c st). frame_inv_with False f"
    by (simp add: frame_inv_with_def)
  from callbacks_inv [OF this assms(2)] have "\<forall>f \<in> set (c st'). frame_inv_with False f" .
  ultimately show "frame_inv f" by (simp add: frame_inv_with_def)
next
  fix f assume s: "\<forall>f \<in> set (c st). storage_ok f" and f: "f \<in> set (c st')"
  from assms(1) s have "\<forall>f \<in> set (c st). frame_inv_with True f"
    by (simp add: frame_inv_with_def)
  from callbacks_inv [OF this assms(2)] f have i: "frame_inv f" "storage_ok f"
    by (simp_all add: frame_inv_with_def)
  then show "storage_ok f" by simp
  assume "key f"
  with i show "\<exists>a k. array f = Some a \<and> 0 \<le> count f - 1 \<and>
           count f - 1 < int (length a) \<and> a ! nat (count f - 1) = Some k"
    by (intro pending_key_cell)
qed

theorem callbacks_keep_frame_invariant_witness:
  "c open_state = [fresh_container, root_container] \<and>
   frame_inv fresh_container \<and> storage_ok fresh_container \<and>
   frame_inv root_container \<and> storage_ok root_container \<and>
   (\<exists>st' f. callbacks (EvMapKey [107]) open_state = Inr (1, st') \<and> c st' = [f, root_container] \<and>
      frame_inv f \<and> storage_ok f \<and> key f \<and> count f = 1 \<and>
      (\<exists>a. array f = Some a \<and> length a = 16 \<and> a ! 0 = Some (Binary [107])))"
proof -
  have i: "\<forall>f \<in> set (c open_state). frame_inv f"
    and s: "\<forall>f \<in> set (c open_state). storage_ok f"
    by (simp_all add: open_state_def fresh_container_def root_container_def frame_inv_def
        storage_ok_def)
  have k: "callbacks (EvMapKey [107]) open_state =
      Inr (1, open_state\<lparr>c := [fresh_container\<lparr>array := Some ((replicate 16 None)[0 := Some (Binary [107])]),
        count := 1, key := True\<rparr>, root_container]\<rparr>)"
    by (simp add: handle_map_key_def next_alloc_def add_element_def grow_def store_def
        slot_write_def open_state_def fresh_container_def INT_MAX_def)
  have j: "c open_state = [fresh_container, root_container]"
    by (simp add: open_state_def)
  from callbacks_keep_frame_invariant [OF i k] s k i j show ?thesis
    by (simp add: fresh_container_def)
qed

end
